theory Spec2Isabelle
  imports Complex_Main "HOL-Library.Extended_Nat"
begin

section \<open>Data model (core/types.ts)\<close>

text \<open>
  The interfaces of \<^verbatim>\<open>types.ts\<close> become records. Field names carry a short prefix
  because HOL records share one name space. A JavaScript \<^verbatim>\<open>number\<close> that holds a
  count, a minute value or a price is a \<open>nat\<close> (the data model of the repository has no
  negative weight); a number that may be \<^verbatim>\<open>Infinity\<close> is an \<open>enat\<close>; a millisecond
  time stamp is an \<open>int\<close>. These numbers stand for doubles, which they are up to \<open>2 ^ 53\<close>:
  the model computes with them as the code does while the values stay below that, and the
  sum that the shortest-path search compares is modelled with its rounding (see the
  section on JavaScript numbers). The optional coordinates of a node (\<^verbatim>\<open>lat\<close>,
  \<^verbatim>\<open>lng\<close>) are read by no function of the repository and are left out.
\<close>

datatype node_type = stop | intersection | destination

datatype mode = bus | local_mode | walk

datatype submode = driving | walking

datatype direction = to_campus | from_campus

datatype source = graph_source | distance_matrix

datatype category = fastest | least_local | both

datatype option_type = direct | transfer | local_only

record Node =
  node_id :: string
  node_name :: string
  node_kind :: node_type
  gmaps_address :: string

record Edge =
  e_from :: string
  e_to :: string
  e_mode :: mode
  e_route_ids :: "string list option"
  e_time_min :: nat
  e_cost :: nat
  e_one_way :: bool

record Trip =
  trip_id :: string
  trip_direction :: direction
  stops :: "string list"
  departure_time :: string

record Route =
  route_id :: string
  route_name :: string
  trips :: "Trip list"

record EdgeInfo =
  ei_to :: string
  ei_mode :: mode
  ei_route_ids :: "string list option"
  ei_time_min :: nat
  ei_cost :: nat

record PathResult =
  found :: bool
  path :: "string list"
  totalTime :: enat
  totalCost :: nat
  path_edges :: "EdgeInfo list"

record RouteLeg =
  leg_mode :: mode
  leg_submode :: "submode option"
  leg_route_id :: "string option"
  leg_trip_id :: "string option"
  leg_from :: string
  leg_to :: string
  leg_departure :: "string option"
  leg_arrival :: "string option"
  leg_durationMin :: "enat option"
  leg_distanceMeters :: "nat option"
  leg_cost :: "nat option"
  leg_source :: "source option"

record RouteOption =
  label :: string
  opt_category :: category
  opt_type :: option_type
  transfers :: nat
  totalTimeMin :: enat
  opt_totalCost :: nat
  localTimeMin :: enat
  localDistanceMeters :: nat
  usesDistanceMatrix :: bool
  legs :: "RouteLeg list"

record RouteResponse =
  resp_from :: string
  resp_to :: string
  resp_requestTime :: string
  options :: "RouteOption list"

text \<open>
  \<^verbatim>\<open>DistanceMatrixResult\<close> without its \<^verbatim>\<open>raw\<close> field, which only carries the
  provider's payload through.
\<close>

record DistanceMatrixResult =
  ok :: bool
  distanceMeters :: "nat option"
  durationSeconds :: "nat option"
  errorMessage :: "string option"
  fromCache :: "bool option"

record CacheEntry =
  ce_distanceMeters :: nat
  ce_durationSeconds :: nat
  ce_timestamp :: int

record UsageStats =
  monthlyCount :: nat
  dailyCount :: nat
  lastReset :: string
  cacheHits :: nat
  cacheMisses :: nat

record TimeOfDay =
  hours :: nat
  minutes :: nat

section \<open>JavaScript containers\<close>

text \<open>
  A JavaScript \<^verbatim>\<open>Map\<close> iterates in insertion order, and \<^verbatim>\<open>set\<close> on a key that is
  present replaces the value where it stands: an association list with one entry per key.
  A \<^verbatim>\<open>Set\<close> is a list without repetition, in insertion order.
\<close>

fun Map_set :: "'k \<Rightarrow> 'v \<Rightarrow> ('k \<times> 'v) list \<Rightarrow> ('k \<times> 'v) list" where
  "Map_set k v [] = [(k, v)]"
| "Map_set k v ((k', v') # kvs) =
     (if k' = k then (k, v) # kvs else (k', v') # Map_set k v kvs)"

definition Map_get :: "('k \<times> 'v) list \<Rightarrow> 'k \<Rightarrow> 'v option" where
  "Map_get kvs k = map_of kvs k"

definition Map_has :: "('k \<times> 'v) list \<Rightarrow> 'k \<Rightarrow> bool" where
  "Map_has kvs k = (map_of kvs k \<noteq> None)"

definition Map_keys :: "('k \<times> 'v) list \<Rightarrow> 'k list" where
  "Map_keys kvs = map fst kvs"

definition Map_values :: "('k \<times> 'v) list \<Rightarrow> 'v list" where
  "Map_values kvs = map snd kvs"

definition Set_add :: "'a \<Rightarrow> 'a list \<Rightarrow> 'a list" where
  "Set_add x xs = (if x \<in> set xs then xs else xs @ [x])"

definition Set_delete :: "'a \<Rightarrow> 'a list \<Rightarrow> 'a list" where
  "Set_delete x xs = removeAll x xs"

section \<open>JavaScript numbers\<close>

text \<open>
  A number of JavaScript is an IEEE 754 double. The times, prices and counts of this
  program are natural numbers. Every natural number up to \<open>2 ^ 53\<close> is a double, and the
  sum of two doubles is their exact sum rounded to a double. \<open>roundDouble n\<close> is the double
  that \<open>n\<close> is rounded to: it keeps the 53 leading bits of \<open>n\<close>, goes to the nearest
  double, to the one with an even last bit on a tie, and gives \<^verbatim>\<open>Infinity\<close> from
  \<open>2 ^ 1024 - 2 ^ 970\<close> on. \<open>dropBits n\<close> is the number of low bits of \<open>n\<close> that do not
  fit.
\<close>

fun dropBits :: "nat \<Rightarrow> nat" where
  "dropBits n = (if n < 2 ^ 53 then 0 else Suc (dropBits (n div 2)))"

declare dropBits.simps [simp del]

definition roundDouble :: "nat \<Rightarrow> enat" where
  "roundDouble n =
     (if n \<le> 2 ^ 53 then enat n
      else
        (let e = dropBits n; q = n div 2 ^ e; r = n mod 2 ^ e;
             m = (if 2 * r < 2 ^ e \<or> (2 * r = 2 ^ e \<and> even q) then q else q + 1) * 2 ^ e
         in if m \<ge> 2 ^ 1024 then \<infinity> else enat m))"

text \<open>
  \<^verbatim>\<open>x + t\<close> for a distance \<open>x\<close>, which may be \<^verbatim>\<open>Infinity\<close>, and the time \<open>t\<close> of
  an edge.
\<close>

definition jsAdd :: "enat \<Rightarrow> nat \<Rightarrow> enat" where
  "jsAdd x t = (case x of enat d \<Rightarrow> roundDouble (d + t) | \<infinity> \<Rightarrow> \<infinity>)"

text \<open>
  \<^verbatim>\<open>n.toString()\<close> for a natural number below \<open>10 ^ 21\<close>, where JavaScript writes all the
  digits.
\<close>

definition digitChar :: "nat \<Rightarrow> char" where
  "digitChar v = ''0123456789'' ! v"

function toString :: "nat \<Rightarrow> string" where
  "toString n = (if n < 10 then [digitChar n] else toString (n div 10) @ [digitChar (n mod 10)])"
  by pat_completeness auto
termination
  by (relation "measure (\<lambda>n. n)") auto

declare toString.simps [simp del]

section \<open>The graph (core/graph.ts)\<close>

record Graph =
  nodes :: "(string \<times> Node) list"
  edges :: "Edge list"
  routes :: "(string \<times> Route) list"
  adjacencyList :: "string \<rightharpoonup> EdgeInfo list"

text \<open>The state of \<^verbatim>\<open>new Graph()\<close>.\<close>

definition newGraph :: Graph where
  "newGraph = \<lparr>nodes = [], edges = [], routes = [], adjacencyList = Map.empty\<rparr>"

definition edgeInfo :: "Edge \<Rightarrow> EdgeInfo" where
  "edgeInfo e = \<lparr>ei_to = e_to e, ei_mode = e_mode e, ei_route_ids = e_route_ids e,
     ei_time_min = e_time_min e, ei_cost = e_cost e\<rparr>"

definition reverseInfo :: "Edge \<Rightarrow> EdgeInfo" where
  "reverseInfo e = \<lparr>ei_to = e_from e, ei_mode = e_mode e, ei_route_ids = e_route_ids e,
     ei_time_min = e_time_min e, ei_cost = e_cost e\<rparr>"

text \<open>
  \<^verbatim>\<open>this.adjacencyList[k].push(info)\<close>: a \<^verbatim>\<open>TypeError\<close> (here \<open>None\<close>) when the
  object has no list under \<open>k\<close>, that is when \<open>k\<close> is not the id of a node. (Keys that
  name a member of \<^verbatim>\<open>Object.prototype\<close> are outside this model.)
\<close>

definition adjPush :: "string \<Rightarrow> EdgeInfo \<Rightarrow> (string \<rightharpoonup> EdgeInfo list) \<Rightarrow> (string \<rightharpoonup> EdgeInfo list) option" where
  "adjPush k info adj = (case adj k of None \<Rightarrow> None | Some es \<Rightarrow> Some (adj(k \<mapsto> es @ [info])))"

definition addEdge :: "Edge \<Rightarrow> (string \<rightharpoonup> EdgeInfo list) \<Rightarrow> (string \<rightharpoonup> EdgeInfo list) option" where
  "addEdge e adj =
     (case adjPush (e_from e) (edgeInfo e) adj of
        None \<Rightarrow> None
      | Some adj1 \<Rightarrow> if \<not> e_one_way e then adjPush (e_to e) (reverseInfo e) adj1 else Some adj1)"

fun addEdges :: "Edge list \<Rightarrow> (string \<rightharpoonup> EdgeInfo list) \<Rightarrow> (string \<rightharpoonup> EdgeInfo list) option" where
  "addEdges [] adj = Some adj"
| "addEdges (e # es) adj = (case addEdge e adj of None \<Rightarrow> None | Some adj1 \<Rightarrow> addEdges es adj1)"

definition initAdjacency :: "string list \<Rightarrow> (string \<rightharpoonup> EdgeInfo list)" where
  "initAdjacency ids = fold (\<lambda>nodeId adj. adj(nodeId \<mapsto> [])) ids Map.empty"

definition buildAdjacencyList :: "Graph \<Rightarrow> Graph option" where
  "buildAdjacencyList g =
     (case addEdges (edges g) (initAdjacency (Map_keys (nodes g))) of
        None \<Rightarrow> None
      | Some adj \<Rightarrow> Some (g\<lparr>adjacencyList := adj\<rparr>))"

text \<open>
  \<^verbatim>\<open>loadData\<close>, from the three parsed JSON arrays (reading the files is outside the
  model). \<open>None\<close> is the \<^verbatim>\<open>TypeError\<close> of \<^verbatim>\<open>buildAdjacencyList\<close>.
\<close>

definition loadData :: "Node list \<Rightarrow> Edge list \<Rightarrow> Route list \<Rightarrow> Graph \<Rightarrow> Graph option" where
  "loadData nodesData edgesData routesData g =
     buildAdjacencyList
       (g\<lparr>nodes := fold (\<lambda>n m. Map_set (node_id n) n m) nodesData (nodes g),
          edges := edgesData,
          routes := fold (\<lambda>r m. Map_set (route_id r) r m) routesData (routes g)\<rparr>)"

definition getNode :: "Graph \<Rightarrow> string \<Rightarrow> Node option" where
  "getNode g nodeId = Map_get (nodes g) nodeId"

definition getAllNodes :: "Graph \<Rightarrow> Node list" where
  "getAllNodes g = Map_values (nodes g)"

definition getRoute :: "Graph \<Rightarrow> string \<Rightarrow> Route option" where
  "getRoute g routeId = Map_get (routes g) routeId"

definition getAllRoutes :: "Graph \<Rightarrow> Route list" where
  "getAllRoutes g = Map_values (routes g)"

definition getNeighbors :: "Graph \<Rightarrow> string \<Rightarrow> EdgeInfo list" where
  "getNeighbors g nodeId = (case adjacencyList g nodeId of None \<Rightarrow> [] | Some es \<Rightarrow> es)"

definition hasNode :: "Graph \<Rightarrow> string \<Rightarrow> bool" where
  "hasNode g nodeId = Map_has (nodes g) nodeId"

subsection \<open>localShortestPath\<close>

text \<open>
  The working state of the search: the four \<^verbatim>\<open>Map\<close>s and the \<^verbatim>\<open>Set\<close> of unvisited
  nodes. The maps are never iterated, so their order does not matter; the set is scanned in
  insertion order. \<^verbatim>\<open>Infinity\<close> is \<open>\<infinity>\<close>, \<^verbatim>\<open>null\<close> in \<^verbatim>\<open>previous\<close> is \<open>None\<close>.
\<close>

record dijkstra_state =
  distances :: "string \<rightharpoonup> enat"
  costs :: "string \<rightharpoonup> nat"
  previous :: "string \<rightharpoonup> string option"
  edgeMap :: "string \<rightharpoonup> EdgeInfo"
  unvisited :: "string list"

definition initNode :: "string \<Rightarrow> dijkstra_state \<Rightarrow> dijkstra_state" where
  "initNode nodeId s =
     s\<lparr>distances := (distances s)(nodeId \<mapsto> \<infinity>),
       costs := (costs s)(nodeId \<mapsto> 0),
       previous := (previous s)(nodeId \<mapsto> None),
       unvisited := Set_add nodeId (unvisited s)\<rparr>"

definition initState :: "string list \<Rightarrow> string \<Rightarrow> dijkstra_state" where
  "initState ids from_id =
     (let s = fold initNode ids
                \<lparr>distances = Map.empty, costs = Map.empty, previous = Map.empty,
                 edgeMap = Map.empty, unvisited = []\<rparr>
      in s\<lparr>distances := (distances s)(from_id \<mapsto> 0)\<rparr>)"

text \<open>
  The scan for the unvisited node of least distance. A comparison with \<^verbatim>\<open>undefined\<close>
  (a key that has no entry) is false in JavaScript, so such a node is passed over.
\<close>

fun scanMin :: "(string \<rightharpoonup> enat) \<Rightarrow> string list \<Rightarrow> string option \<times> enat \<Rightarrow> string option \<times> enat" where
  "scanMin d [] acc = acc"
| "scanMin d (nodeId # rest) (current, minDist) =
     (case d nodeId of
        None \<Rightarrow> scanMin d rest (current, minDist)
      | Some nodeDist \<Rightarrow>
          if nodeDist < minDist then scanMin d rest (Some nodeId, nodeDist)
          else scanMin d rest (current, minDist))"

text \<open>
  The body of \<^verbatim>\<open>neighbors.forEach\<close>. The three look-ups are on keys that the
  initialisation has set: the current node was taken from \<^verbatim>\<open>unvisited\<close>, the target of the
  edge is in it, and every node ever in \<^verbatim>\<open>unvisited\<close> has an entry in \<^verbatim>\<open>distances\<close> and in
  \<^verbatim>\<open>costs\<close> (a part of the invariant proved below). The last case of the model, a missing
  entry, therefore never arises in a run; it leaves the state as it is.

  The new distance is a sum of doubles, \<open>jsAdd\<close>; it decides which way the search goes.
  The cost is carried along and read by no test: the model keeps its sum exact, which is
  the sum of the code as long as it stays at or below \<open>2 ^ 53\<close>.
\<close>

definition relaxEdge :: "mode list \<Rightarrow> string \<Rightarrow> dijkstra_state \<Rightarrow> EdgeInfo \<Rightarrow> dijkstra_state" where
  "relaxEdge allowedModes current s edge =
     (if ei_mode edge \<notin> set allowedModes then s
      else if ei_to edge \<notin> set (unvisited s) then s
      else
        (case (distances s current, costs s current, distances s (ei_to edge)) of
           (Some dcur, Some ccur, Some dto) \<Rightarrow>
             (let newDist = jsAdd dcur (ei_time_min edge)
              in if newDist < dto then
                   s\<lparr>distances := (distances s)(ei_to edge \<mapsto> newDist),
                     costs := (costs s)(ei_to edge \<mapsto> ccur + ei_cost edge),
                     previous := (previous s)(ei_to edge \<mapsto> Some current),
                     edgeMap := (edgeMap s)(ei_to edge \<mapsto> edge)\<rparr>
                 else s)
         | _ \<Rightarrow> s))"

lemma scanMin_member:
  "scanMin d ns acc = (Some c, m) \<Longrightarrow> c \<in> set ns \<or> fst acc = Some c"
proof (induction ns arbitrary: acc)
  case Nil
  then show ?case by simp
next
  case (Cons n ns)
  obtain cur md where acc: "acc = (cur, md)" by (cases acc)
  show ?case
  proof (cases "d n")
    case None
    with Cons.prems acc have "scanMin d ns (cur, md) = (Some c, m)" by simp
    from Cons.IH [OF this] acc show ?thesis by auto
  next
    case (Some nd)
    show ?thesis
    proof (cases "nd < md")
      case True
      with Cons.prems acc Some have "scanMin d ns (Some n, nd) = (Some c, m)" by simp
      from Cons.IH [OF this] show ?thesis by auto
    next
      case False
      with Cons.prems acc Some have "scanMin d ns (cur, md) = (Some c, m)" by simp
      from Cons.IH [OF this] acc show ?thesis by auto
    qed
  qed
qed

lemma unvisited_relaxEdge: "unvisited (relaxEdge allowedModes current s edge) = unvisited s"
  by (simp add: relaxEdge_def Let_def split: option.splits)

lemma unvisited_relaxEdges:
  "unvisited (foldl (relaxEdge allowedModes current) s es) = unvisited s"
  by (induction es arbitrary: s) (simp_all add: unvisited_relaxEdge)

text \<open>
  The \<^verbatim>\<open>while (unvisited.size > 0)\<close> loop. Each round that does not leave the loop
  takes one node out of the set, which is why it ends.
\<close>

function dijkstraLoop :: "(string \<Rightarrow> EdgeInfo list) \<Rightarrow> mode list \<Rightarrow> string \<Rightarrow> dijkstra_state \<Rightarrow> dijkstra_state" where
  "dijkstraLoop neighborsOf allowedModes to_id s =
     (if unvisited s = [] then s
      else
        (case scanMin (distances s) (unvisited s) (None, \<infinity>) of
           (None, minDist) \<Rightarrow> s
         | (Some current, minDist) \<Rightarrow>
             if minDist = \<infinity> then s
             else
               (let s1 = s\<lparr>unvisited := Set_delete current (unvisited s)\<rparr>
                in if current = to_id then s1
                   else dijkstraLoop neighborsOf allowedModes to_id
                          (foldl (relaxEdge allowedModes current) s1 (neighborsOf current)))))"
  by pat_completeness auto
termination
proof (relation "measure (\<lambda>(neighborsOf, allowedModes, to_id, s). length (unvisited s))")
  show "wf (measure (\<lambda>(neighborsOf, allowedModes, to_id, s). length (unvisited s)))"
    by simp
next
  fix neighborsOf :: "string \<Rightarrow> EdgeInfo list" and allowedModes :: "mode list"
    and to_id :: string and s :: dijkstra_state and x :: "string option \<times> enat"
    and x1 :: "string option" and minDist :: enat and current :: string and s1 :: dijkstra_state
  assume "(x1, minDist) = scanMin (distances s) (unvisited s) (None, \<infinity>)"
    and "x1 = Some current" and s1: "s1 = s\<lparr>unvisited := Set_delete current (unvisited s)\<rparr>"
  then have "scanMin (distances s) (unvisited s) (None, \<infinity>) = (Some current, minDist)"
    by simp
  from scanMin_member [OF this] have "current \<in> set (unvisited s)" by simp
  then have "length (removeAll current (unvisited s)) < length (unvisited s)"
    by (rule length_removeAll_less)
  with s1 show "((neighborsOf, allowedModes, to_id,
                  foldl (relaxEdge allowedModes current) s1 (neighborsOf current)),
                 (neighborsOf, allowedModes, to_id, s))
                \<in> measure (\<lambda>(neighborsOf, allowedModes, to_id, s). length (unvisited s))"
    by (simp add: unvisited_relaxEdges Set_delete_def)
qed

text \<open>
  The path is rebuilt backwards along \<^verbatim>\<open>previous\<close>. The loop runs for as long as
  \<^verbatim>\<open>previous.get(current)\<close> is truthy (neither \<^verbatim>\<open>null\<close> nor the empty string);
  whether it ends depends on the map, so the function is partial: \<open>None\<close> is a loop that
  does not return. An edge is pushed only where a predecessor is recorded, and
  \<^verbatim>\<open>edgeMap\<close> is written together with \<^verbatim>\<open>previous\<close>, so its look-up succeeds there.
\<close>

definition truthyPrevious :: "(string \<rightharpoonup> string option) \<Rightarrow> string \<Rightarrow> string option" where
  "truthyPrevious prev current =
     (case prev current of Some (Some p) \<Rightarrow> if p = [] then None else Some p | _ \<Rightarrow> None)"

partial_function (option) reconstruct ::
    "(string \<rightharpoonup> string option) \<Rightarrow> (string \<rightharpoonup> EdgeInfo) \<Rightarrow> string option \<Rightarrow> string list \<Rightarrow> EdgeInfo list \<Rightarrow>
     (string list \<times> EdgeInfo list) option" where
  "reconstruct prev em current pth es =
     (case current of
        None \<Rightarrow> Some (pth, es)
      | Some cur \<Rightarrow>
          reconstruct prev em (truthyPrevious prev cur) (cur # pth)
            (if truthyPrevious prev cur \<noteq> None
             then (case em cur of Some edge \<Rightarrow> edge # es | None \<Rightarrow> es)
             else es))"

declare reconstruct.simps [code]

definition notFound :: PathResult where
  "notFound = \<lparr>found = False, path = [], totalTime = \<infinity>, totalCost = 0, path_edges = []\<rparr>"

text \<open>
  \<^verbatim>\<open>localShortestPath(from, to, allowedModes)\<close>. \<open>None\<close> is a run whose path
  reconstruction does not return. The final look-ups are on the key \<open>to_id\<close>, a node.
\<close>

definition localShortestPath :: "Graph \<Rightarrow> string \<Rightarrow> string \<Rightarrow> mode list \<Rightarrow> PathResult option" where
  "localShortestPath g from_id to_id allowedModes =
     (if \<not> Map_has (nodes g) from_id \<or> \<not> Map_has (nodes g) to_id then Some notFound
      else if from_id = to_id then
        Some \<lparr>found = True, path = [from_id], totalTime = 0, totalCost = 0, path_edges = []\<rparr>
      else
        (let s = dijkstraLoop (getNeighbors g) allowedModes to_id
                   (initState (Map_keys (nodes g)) from_id)
         in case distances s to_id of
              None \<Rightarrow> Some notFound
            | Some finalDist \<Rightarrow>
                if finalDist = \<infinity> then Some notFound
                else
                  (case reconstruct (previous s) (edgeMap s) (Some to_id) [] [] of
                     None \<Rightarrow> None
                   | Some (pth, es) \<Rightarrow>
                       Some \<lparr>found = True, path = pth, totalTime = finalDist,
                             totalCost = (case costs s to_id of Some c \<Rightarrow> c | None \<Rightarrow> 0),
                             path_edges = es\<rparr>)))"

text \<open>The default value of the parameter \<^verbatim>\<open>allowedModes\<close>.\<close>

definition defaultModes :: "mode list" where
  "defaultModes = [walk, local_mode]"

section \<open>The distance matrix client (infra/distanceMatrixClient.ts)\<close>

record DistanceMatrixClient =
  apiKey :: string
  cache :: "string \<rightharpoonup> CacheEntry"
  usageStats :: UsageStats

definition MONTHLY_LIMIT :: nat where
  "MONTHLY_LIMIT = 700"

definition DAILY_LIMIT :: nat where
  "DAILY_LIMIT = 50"

definition CACHE_TTL_DAYS :: real where
  "CACHE_TTL_DAYS = 7"

subsection \<open>The outside world of one call\<close>

text \<open>
  The JSON body of the provider, as far as the client reads it: \<^verbatim>\<open>data.status\<close>,
  \<^verbatim>\<open>data.rows[0]?.elements[0]\<close>, and of that element \<^verbatim>\<open>status\<close>,
  \<^verbatim>\<open>distance?.value\<close> and \<^verbatim>\<open>duration?.value\<close>. \<open>None\<close> is a member that is
  absent.
\<close>

record dm_element =
  el_status :: "string option"
  el_distance :: "nat option"
  el_duration :: "nat option"

record dm_row =
  elements :: "dm_element list option"

record dm_data =
  status :: "string option"
  rows :: "dm_row list option"

text \<open>
  \<^verbatim>\<open>await axios.get(...)\<close> has three outcomes. The request fails before any answer
  (time-out, connection failure) and the promise rejects with an error that has a message:
  \<open>Rejected\<close>. The provider answers with an HTTP status outside 200 to 299, which
  \<open>ErrorStatus\<close> carries: no
  \<^verbatim>\<open>validateStatus\<close> is passed, so the promise rejects as well, with the message
  \<^verbatim>\<open>Request failed with status code\<close> and the status. The provider answers
  with a status from 200 to 299 and the promise resolves with a response whose
  \<^verbatim>\<open>data\<close> may be absent: \<open>Resolved\<close>.
\<close>

datatype http_outcome = Rejected string | ErrorStatus nat | Resolved "dm_data option"

record dm_request =
  req_origins :: string
  req_destinations :: string
  req_mode :: submode
  req_key :: string

text \<open>
  What one call of \<^verbatim>\<open>getLocalSegment\<close> reads from outside: the UTC date of
  \<^verbatim>\<open>new Date().toISOString().slice(0, 10)\<close>, \<^verbatim>\<open>Date.now()\<close> at the cache lookup,
  the outcome of the request, and \<^verbatim>\<open>Date.now()\<close> when the answer is stored.
\<close>

record dm_env =
  today :: string
  now_lookup :: int
  outcome :: "dm_request \<Rightarrow> http_outcome"
  now_store :: int

datatype js_exception = AxiosError string | TypeError string

definition exn_message :: "js_exception \<Rightarrow> string" where
  "exn_message x = (case x of AxiosError m \<Rightarrow> m | TypeError m \<Rightarrow> m)"

text \<open>The engine's message for a member read on \<^verbatim>\<open>undefined\<close> (the wording is V8's).\<close>

definition cannotRead :: "string \<Rightarrow> js_exception" where
  "cannotRead member =
     TypeError (''Cannot read properties of undefined (reading '' @ [CHR 0x27] @ member @ [CHR 0x27] @ '')'')"

definition submode_string :: "submode \<Rightarrow> string" where
  "submode_string m = (case m of driving \<Rightarrow> ''driving'' | walking \<Rightarrow> ''walking'')"

definition failure :: "string \<Rightarrow> DistanceMatrixResult" where
  "failure msg = \<lparr>ok = False, distanceMeters = None, durationSeconds = None,
     errorMessage = Some msg, fromCache = None\<rparr>"

subsection \<open>Counters and cache\<close>

definition checkAndResetCounters :: "string \<Rightarrow> UsageStats \<Rightarrow> UsageStats" where
  "checkAndResetCounters today_str u =
     (if lastReset u \<noteq> today_str then
        (let u1 = u\<lparr>dailyCount := 0\<rparr>;
             lastMonth = take 7 (lastReset u1);
             currentMonth = take 7 today_str;
             u2 = (if lastMonth \<noteq> currentMonth then u1\<lparr>monthlyCount := 0\<rparr> else u1)
         in u2\<lparr>lastReset := today_str\<rparr>)
      else u)"

definition isCacheValid :: "int \<Rightarrow> CacheEntry \<Rightarrow> bool" where
  "isCacheValid now entry =
     (let ageMs = now - ce_timestamp entry;
          ageDays = real_of_int ageMs / (1000 * 60 * 60 * 24)
      in ageDays < CACHE_TTL_DAYS)"

definition cacheKeyOf :: "string \<Rightarrow> string \<Rightarrow> submode \<Rightarrow> string" where
  "cacheKeyOf originNodeId destNodeId m =
     originNodeId @ ''|'' @ destNodeId @ ''|'' @ submode_string m"

subsection \<open>getLocalSegment\<close>

text \<open>
  \<^verbatim>\<open>data.rows[0]?.elements[0]\<close>: the optional chain gives \<^verbatim>\<open>undefined\<close> (here
  \<open>Inr None\<close>) when there is no first row; reading index 0 of an absent \<^verbatim>\<open>rows\<close> or
  \<^verbatim>\<open>elements\<close> throws.
\<close>

definition firstElement :: "dm_data \<Rightarrow> js_exception + dm_element option" where
  "firstElement data =
     (case rows data of
        None \<Rightarrow> Inl (cannotRead ''0'')
      | Some [] \<Rightarrow> Inr None
      | Some (r # _) \<Rightarrow>
          (case elements r of
             None \<Rightarrow> Inl (cannotRead ''0'')
           | Some [] \<Rightarrow> Inr None
           | Some (el # _) \<Rightarrow> Inr (Some el)))"

text \<open>\<^verbatim>\<open>element?.status || 'MISSING'\<close>\<close>

definition elementStatus :: "dm_element option \<Rightarrow> string" where
  "elementStatus element =
     (case element of
        None \<Rightarrow> ''MISSING''
      | Some el \<Rightarrow> (case el_status el of None \<Rightarrow> ''MISSING'' | Some s \<Rightarrow> if s = [] then ''MISSING'' else s))"

text \<open>The successful end of the block: the entry is cached and returned.\<close>

definition storeSegment :: "string \<Rightarrow> int \<Rightarrow> DistanceMatrixClient \<Rightarrow> dm_element \<Rightarrow>
    DistanceMatrixResult \<times> DistanceMatrixClient" where
  "storeSegment cacheKey now c element =
     (let dist = (case el_distance element of None \<Rightarrow> 0 | Some v \<Rightarrow> v);
          dur = (case el_duration element of None \<Rightarrow> 0 | Some v \<Rightarrow> v)
      in (\<lparr>ok = True, distanceMeters = Some dist, durationSeconds = Some dur,
            errorMessage = None, fromCache = Some False\<rparr>,
          c\<lparr>cache := (cache c)(cacheKey \<mapsto>
              \<lparr>ce_distanceMeters = dist, ce_durationSeconds = dur, ce_timestamp = now\<rparr>)\<rparr>))"

text \<open>
  The statements of the \<^verbatim>\<open>try\<close> block after the \<^verbatim>\<open>await\<close>, from
  \<^verbatim>\<open>const data = response.data\<close> on; the two counters have been incremented by then.
  \<open>Inl\<close> is an exception thrown inside the block.
\<close>

definition readResponse :: "string \<Rightarrow> int \<Rightarrow> DistanceMatrixClient \<Rightarrow> dm_data option \<Rightarrow>
    js_exception + (DistanceMatrixResult \<times> DistanceMatrixClient)" where
  "readResponse cacheKey now c body =
     (case body of
        None \<Rightarrow> Inl (cannotRead ''status'')
      | Some data \<Rightarrow>
          if status data \<noteq> Some ''OK'' then
            Inr (failure (''API status: '' @ (case status data of None \<Rightarrow> ''undefined'' | Some s \<Rightarrow> s)), c)
          else
            (case firstElement data of
               Inl x \<Rightarrow> Inl x
             | Inr None \<Rightarrow> Inr (failure (''Element status: '' @ elementStatus None), c)
             | Inr (Some element) \<Rightarrow>
                 if el_status element \<noteq> Some ''OK'' then
                   Inr (failure (''Element status: '' @ elementStatus (Some element)), c)
                 else Inr (storeSegment cacheKey now c element)))"

text \<open>
  The \<^verbatim>\<open>try\<close> block as a whole. An exception leaves the client as the statements before
  it made it, so the block returns the client beside the exception.
\<close>

definition tryRequest :: "dm_env \<Rightarrow> string \<Rightarrow> dm_request \<Rightarrow> DistanceMatrixClient \<Rightarrow>
    (js_exception + DistanceMatrixResult) \<times> DistanceMatrixClient" where
  "tryRequest env cacheKey req c =
     (case outcome env req of
        Rejected msg \<Rightarrow> (Inl (AxiosError msg), c)
      | ErrorStatus code \<Rightarrow>
          (Inl (AxiosError (''Request failed with status code '' @ toString code)), c)
      | Resolved body \<Rightarrow>
          (let u = usageStats c;
               c1 = c\<lparr>usageStats := u\<lparr>monthlyCount := monthlyCount u + 1,
                                       dailyCount := dailyCount u + 1\<rparr>\<rparr>
           in case readResponse cacheKey (now_store env) c1 body of
                Inl x \<Rightarrow> (Inl x, c1)
              | Inr (r, c2) \<Rightarrow> (Inr r, c2)))"

text \<open>The \<^verbatim>\<open>params\<close> of the request.\<close>

definition requestOf :: "Node \<Rightarrow> Node \<Rightarrow> submode \<Rightarrow> string \<Rightarrow> dm_request" where
  "requestOf originNode destNode m k = \<lparr>req_origins = gmaps_address originNode,
     req_destinations = gmaps_address destNode, req_mode = m, req_key = k\<rparr>"

text \<open>\<^verbatim>\<open>cached && this.isCacheValid(cached)\<close>: the entry, when it is served.\<close>

definition cacheLookup :: "int \<Rightarrow> (string \<rightharpoonup> CacheEntry) \<Rightarrow> string \<Rightarrow> CacheEntry option" where
  "cacheLookup now entries cacheKey =
     (case entries cacheKey of
        None \<Rightarrow> None
      | Some cached \<Rightarrow> if isCacheValid now cached then Some cached else None)"

text \<open>
  \<^verbatim>\<open>getLocalSegment\<close> returns its result, the client after the call, and the requests
  that went out (none or one). \<open>fetchSegment\<close> is the function from the comment
  \<^verbatim>\<open>// Check quota\<close> to its end, \<open>key\<close> being \<^verbatim>\<open>this.apiKey\<close>.
\<close>

definition fetchSegment :: "Graph \<Rightarrow> dm_env \<Rightarrow> DistanceMatrixClient \<Rightarrow> string \<Rightarrow> string \<Rightarrow> string \<Rightarrow> submode \<Rightarrow>
    DistanceMatrixResult \<times> DistanceMatrixClient \<times> dm_request list" where
  "fetchSegment g env c cacheKey originNodeId destNodeId m =
     (if monthlyCount (usageStats c) \<ge> MONTHLY_LIMIT then
        (failure ''Monthly API quota exceeded'', c, [])
      else if dailyCount (usageStats c) \<ge> DAILY_LIMIT then
        (failure ''Daily API quota exceeded'', c, [])
      else
        (case (getNode g originNodeId, getNode g destNodeId) of
           (Some originNode, Some destNode) \<Rightarrow>
             (let c1 = c\<lparr>usageStats := (usageStats c)\<lparr>cacheMisses := cacheMisses (usageStats c) + 1\<rparr>\<rparr>;
                  req = requestOf originNode destNode m (apiKey c)
              in case tryRequest env cacheKey req c1 of
                   (Inr r, c2) \<Rightarrow> (r, c2, [req])
                 | (Inl error, c2) \<Rightarrow>
                     (failure (''Network error: '' @ exn_message error), c2, [req]))
         | _ \<Rightarrow> (failure ''Invalid node IDs'', c, [])))"

definition getLocalSegment :: "Graph \<Rightarrow> dm_env \<Rightarrow> DistanceMatrixClient \<Rightarrow> string \<Rightarrow> string \<Rightarrow> submode \<Rightarrow>
    DistanceMatrixResult \<times> DistanceMatrixClient \<times> dm_request list" where
  "getLocalSegment g env c0 originNodeId destNodeId m =
     (if apiKey c0 = [] then (failure ''Distance Matrix API key not configured'', c0, [])
      else
        (let c = c0\<lparr>usageStats := checkAndResetCounters (today env) (usageStats c0)\<rparr>;
             cacheKey = cacheKeyOf originNodeId destNodeId m
         in case cacheLookup (now_lookup env) (cache c) cacheKey of
              Some cached \<Rightarrow>
                (\<lparr>ok = True, distanceMeters = Some (ce_distanceMeters cached),
                   durationSeconds = Some (ce_durationSeconds cached),
                   errorMessage = None, fromCache = Some True\<rparr>,
                 c\<lparr>usageStats := (usageStats c)\<lparr>cacheHits := cacheHits (usageStats c) + 1\<rparr>\<rparr>, [])
            | None \<Rightarrow> fetchSegment g env c cacheKey originNodeId destNodeId m))"

section \<open>Time of day (core/types.ts)\<close>

text \<open>
  A run leaves the model in three ways, each an \<open>Inl\<close>: \<open>NotDecimal\<close>, a time string
  with a part that \<^verbatim>\<open>Number\<close> does not read as a run of decimal digits (JavaScript goes
  on with \<^verbatim>\<open>NaN\<close> or with another numeric literal); \<open>NoReturn\<close>, a loop that does not
  end; \<open>Thrown\<close>, a \<^verbatim>\<open>TypeError\<close> that leaves the planner.
\<close>

datatype fault = NotDecimal | NoReturn | Thrown

definition andThen :: "fault + 'a \<Rightarrow> ('a \<Rightarrow> fault + 'b) \<Rightarrow> fault + 'b" where
  "andThen r f = (case r of Inl e \<Rightarrow> Inl e | Inr x \<Rightarrow> f x)"

fun foldFault :: "('a \<Rightarrow> 'b \<Rightarrow> fault + 'b) \<Rightarrow> 'a list \<Rightarrow> 'b \<Rightarrow> fault + 'b" where
  "foldFault f [] acc = Inr acc"
| "foldFault f (x # xs) acc = (case f x acc of Inl e \<Rightarrow> Inl e | Inr acc1 \<Rightarrow> foldFault f xs acc1)"

definition digitValue :: "char \<Rightarrow> nat option" where
  "digitValue ch =
     map_of [(CHR ''0'', 0), (CHR ''1'', 1), (CHR ''2'', 2), (CHR ''3'', 3), (CHR ''4'', 4),
             (CHR ''5'', 5), (CHR ''6'', 6), (CHR ''7'', 7), (CHR ''8'', 8), (CHR ''9'', 9)] ch"

fun decimal :: "string \<Rightarrow> nat \<Rightarrow> nat option" where
  "decimal [] acc = Some acc"
| "decimal (ch # cs) acc =
     (case digitValue ch of None \<Rightarrow> None | Some v \<Rightarrow> decimal cs (10 * acc + v))"

text \<open>
  \<^verbatim>\<open>Number(str)\<close> on a run of decimal digits; the empty string gives 0. The run is read
  as the natural number it writes, which is the double of JavaScript for every value up to
  \<open>2 ^ 53\<close>; the sums and products of the planner are taken over the natural numbers in
  the same way.
\<close>

definition Number :: "string \<Rightarrow> nat option" where
  "Number str = decimal str 0"

text \<open>\<^verbatim>\<open>str.split(sep)\<close> for a separator of one character.\<close>

fun split_on :: "char \<Rightarrow> string \<Rightarrow> string list" where
  "split_on sep [] = [[]]"
| "split_on sep (ch # cs) =
     (if ch = sep then [] # split_on sep cs
      else (case split_on sep cs of [] \<Rightarrow> [[ch]] | part # parts \<Rightarrow> (ch # part) # parts))"

definition parseTime :: "string \<Rightarrow> fault + TimeOfDay" where
  "parseTime timeStr =
     (case map Number (split_on CHR '':'' timeStr) of
        Some h # Some m # _ \<Rightarrow> Inr \<lparr>hours = h, minutes = m\<rparr>
      | _ \<Rightarrow> Inl NotDecimal)"

definition timeToMinutes :: "TimeOfDay \<Rightarrow> nat" where
  "timeToMinutes time = hours time * 60 + minutes time"

definition padStart2 :: "string \<Rightarrow> string" where
  "padStart2 str = replicate (2 - length str) CHR ''0'' @ str"

definition minutesToTime :: "nat \<Rightarrow> string" where
  "minutesToTime mins =
     (let hrs = mins div 60; ms = mins mod 60
      in padStart2 (toString hrs) @ '':'' @ padStart2 (toString ms))"

definition addMinutes :: "string \<Rightarrow> nat \<Rightarrow> fault + string" where
  "addMinutes timeStr minutesToAdd =
     andThen (parseTime timeStr) (\<lambda>time.
       let totalMinutes = timeToMinutes time + minutesToAdd
       in Inr (minutesToTime (totalMinutes mod 1440)))"

section \<open>The route planner (core/planner.ts)\<close>

text \<open>
  The planner calls the distance matrix client several times. Its state is the client, the
  number of calls made so far and the requests sent; the outside world of the \<open>k\<close>-th
  call is \<open>envs k\<close>.
\<close>

record world =
  client :: DistanceMatrixClient
  calls :: nat
  sent :: "dm_request list"

definition callSegment :: "Graph \<Rightarrow> (nat \<Rightarrow> dm_env) \<Rightarrow> world \<Rightarrow> string \<Rightarrow> string \<Rightarrow> submode \<Rightarrow>
    DistanceMatrixResult \<times> world" where
  "callSegment g envs w originNodeId destNodeId m =
     (case getLocalSegment g (envs (calls w)) (client w) originNodeId destNodeId m of
        (r, c, reqs) \<Rightarrow> (r, \<lparr>client = c, calls = calls w + 1, sent = sent w @ reqs\<rparr>))"

text \<open>\<^verbatim>\<open>Math.round(n / d)\<close> for natural numbers: halves go up.\<close>

definition roundDiv :: "nat \<Rightarrow> nat \<Rightarrow> nat" where
  "roundDiv n d = (2 * n + d) div (2 * d)"

fun indexOf :: "'a list \<Rightarrow> 'a \<Rightarrow> nat option" where
  "indexOf [] x = None"
| "indexOf (y # ys) x = (if y = x then Some 0 else map_option Suc (indexOf ys x))"

definition opt_list :: "'a option \<Rightarrow> 'a list" where
  "opt_list x = (case x of None \<Rightarrow> [] | Some v \<Rightarrow> [v])"

subsection \<open>Direct bus routing\<close>

definition busLeg :: "Route \<Rightarrow> Trip \<Rightarrow> string \<Rightarrow> string \<Rightarrow> string \<Rightarrow> string \<Rightarrow> nat \<Rightarrow> RouteLeg" where
  "busLeg route trip from_id to_id departureTime arrivalTime travelTime =
     \<lparr>leg_mode = bus, leg_submode = None, leg_route_id = Some (route_id route),
      leg_trip_id = Some (trip_id trip), leg_from = from_id, leg_to = to_id,
      leg_departure = Some departureTime, leg_arrival = Some arrivalTime,
      leg_durationMin = Some (enat travelTime), leg_distanceMeters = None, leg_cost = Some 0,
      leg_source = Some graph_source\<rparr>"

text \<open>The body of the loop over the trips; \<open>Inr None\<close> is \<^verbatim>\<open>continue\<close>.\<close>

definition directTrip :: "Route \<Rightarrow> string \<Rightarrow> string \<Rightarrow> string \<Rightarrow> Trip \<Rightarrow> fault + RouteOption option" where
  "directTrip route from_id to_id requestTime trip =
     (case (indexOf (stops trip) from_id, indexOf (stops trip) to_id) of
        (Some fromIndex, Some toIndex) \<Rightarrow>
          if fromIndex \<ge> toIndex then Inr None
          else
            andThen (parseTime (departure_time trip)) (\<lambda>tripStart.
            andThen (parseTime requestTime) (\<lambda>request.
              let hopsBefore = fromIndex;
                  tripStartMin = timeToMinutes tripStart;
                  timeToFrom = hopsBefore * 5;
                  departureMin = tripStartMin + timeToFrom;
                  requestMin = timeToMinutes request
              in if departureMin < requestMin then Inr None
                 else
                   (let hops = toIndex - fromIndex;
                        travelTime = hops * 5
                    in andThen (addMinutes (departure_time trip) (timeToFrom + travelTime)) (\<lambda>arrivalTime.
                       andThen (addMinutes (departure_time trip) timeToFrom) (\<lambda>departureTime.
                         Inr (Some
                           \<lparr>label = route_name route @ '' Direct'',
                            opt_category = fastest, opt_type = direct, transfers = 0,
                            totalTimeMin = enat (travelTime + (departureMin - requestMin)),
                            opt_totalCost = 0, localTimeMin = 0, localDistanceMeters = 0,
                            usesDistanceMatrix = False,
                            legs = [busLeg route trip from_id to_id departureTime arrivalTime travelTime]\<rparr>))))))
      | _ \<Rightarrow> Inr None)"

fun directTrips :: "Route \<Rightarrow> string \<Rightarrow> string \<Rightarrow> string \<Rightarrow> Trip list \<Rightarrow> fault + RouteOption option" where
  "directTrips route from_id to_id requestTime [] = Inr None"
| "directTrips route from_id to_id requestTime (trip # rest) =
     (case directTrip route from_id to_id requestTime trip of
        Inl e \<Rightarrow> Inl e
      | Inr (Some option) \<Rightarrow> Inr (Some option)
      | Inr None \<Rightarrow> directTrips route from_id to_id requestTime rest)"

definition directBusRoute :: "Route \<Rightarrow> string \<Rightarrow> string \<Rightarrow> string \<Rightarrow> fault + RouteOption option" where
  "directBusRoute route from_id to_id requestTime =
     directTrips route from_id to_id requestTime (trips route)"

subsection \<open>Bus, then local transport\<close>

text \<open>
  The local segment from a drop-off stop: the path of the graph when there is one,
  otherwise an estimate of the distance matrix client; \<open>None\<close> (the \<^verbatim>\<open>continue\<close> of the
  source) when both fail. The four figures are \<^verbatim>\<open>localTime\<close>, \<^verbatim>\<open>localCost\<close>,
  \<^verbatim>\<open>localDistance\<close> and \<^verbatim>\<open>usedDM\<close>.
\<close>

definition localSegment :: "Graph \<Rightarrow> (nat \<Rightarrow> dm_env) \<Rightarrow> world \<Rightarrow> PathResult \<Rightarrow> string \<Rightarrow> string \<Rightarrow>
    (enat \<times> nat \<times> nat \<times> bool) option \<times> world" where
  "localSegment g envs w localPath dropOffStop to_id =
     (if \<not> found localPath then
        (case callSegment g envs w dropOffStop to_id driving of
           (dmResult, w1) \<Rightarrow>
             if ok dmResult then
               (let localTime = roundDiv (case durationSeconds dmResult of None \<Rightarrow> 0 | Some v \<Rightarrow> v) 60;
                    localDistance = (case distanceMeters dmResult of None \<Rightarrow> 0 | Some v \<Rightarrow> v);
                    localCost = roundDiv localDistance 100 * 2
                in (Some (enat localTime, localCost, localDistance, True), w1))
             else (None, w1))
      else (Some (totalTime localPath, totalCost localPath, 0, False), w))"

text \<open>
  The body of the loop over the drop-off index \<open>i\<close>. The accumulator holds
  \<^verbatim>\<open>bestOption\<close>, \<^verbatim>\<open>minTotalTime\<close> and the state of the outside world.
\<close>

definition dropOff :: "Graph \<Rightarrow> (nat \<Rightarrow> dm_env) \<Rightarrow> Route \<Rightarrow> string \<Rightarrow> string \<Rightarrow> string \<Rightarrow> Trip \<Rightarrow> nat \<Rightarrow> nat \<Rightarrow>
    RouteOption option \<times> enat \<times> world \<Rightarrow> fault + (RouteOption option \<times> enat \<times> world)" where
  "dropOff g envs route from_id to_id requestTime trip fromIndex i acc =
     (case acc of (bestOption, minTotalTime, w) \<Rightarrow>
        (let dropOffStop = stops trip ! i
         in if dropOffStop = to_id then Inr acc
            else
              (case localShortestPath g dropOffStop to_id defaultModes of
                 None \<Rightarrow> Inl NoReturn
               | Some localPath \<Rightarrow>
                   (case localSegment g envs w localPath dropOffStop to_id of
                      (None, w1) \<Rightarrow> Inr (bestOption, minTotalTime, w1)
                    | (Some (localTime, localCost, localDistance, usedDM), w1) \<Rightarrow>
                        andThen (parseTime (departure_time trip)) (\<lambda>tripStart.
                        andThen (parseTime requestTime) (\<lambda>request.
                          let hopsBefore = fromIndex;
                              busHops = i - fromIndex;
                              timeToFrom = hopsBefore * 5;
                              busTravelTime = busHops * 5;
                              tripStartMin = timeToMinutes tripStart;
                              departureMin = tripStartMin + timeToFrom;
                              requestMin = timeToMinutes request
                          in if departureMin < requestMin then Inr (bestOption, minTotalTime, w1)
                             else
                               (let waitTime = departureMin - requestMin;
                                    totalTime = enat waitTime + enat busTravelTime + localTime
                                in if totalTime < minTotalTime then
                                     andThen (addMinutes (departure_time trip) timeToFrom) (\<lambda>departureTime.
                                     andThen (addMinutes (departure_time trip) (timeToFrom + busTravelTime)) (\<lambda>arrivalTime.
                                       Inr (Some
                                         \<lparr>label = route_name route @ '' + Local'',
                                          opt_category = fastest, opt_type = direct, transfers = 0,
                                          totalTimeMin = totalTime, opt_totalCost = localCost,
                                          localTimeMin = localTime, localDistanceMeters = localDistance,
                                          usesDistanceMatrix = usedDM,
                                          legs = [busLeg route trip from_id dropOffStop departureTime arrivalTime busTravelTime,
                                                  \<lparr>leg_mode = local_mode, leg_submode = Some driving,
                                                   leg_route_id = None, leg_trip_id = None,
                                                   leg_from = dropOffStop, leg_to = to_id,
                                                   leg_departure = None, leg_arrival = None,
                                                   leg_durationMin = Some localTime,
                                                   leg_distanceMeters = Some localDistance,
                                                   leg_cost = Some localCost,
                                                   leg_source = Some (if usedDM then distance_matrix else graph_source)\<rparr>]\<rparr>,
                                           totalTime, w1)))
                                   else Inr (bestOption, minTotalTime, w1))))))))"

definition busToLocalRoute :: "Graph \<Rightarrow> (nat \<Rightarrow> dm_env) \<Rightarrow> world \<Rightarrow> Route \<Rightarrow> string \<Rightarrow> string \<Rightarrow> string \<Rightarrow>
    fault + (RouteOption option \<times> world)" where
  "busToLocalRoute g envs w route from_id to_id requestTime =
     andThen
       (foldFault
          (\<lambda>trip acc.
             case indexOf (stops trip) from_id of
               None \<Rightarrow> Inr acc
             | Some fromIndex \<Rightarrow>
                 foldFault (dropOff g envs route from_id to_id requestTime trip fromIndex)
                   [fromIndex + 1 ..< length (stops trip)] acc)
          (trips route) (None, \<infinity>, w))
       (\<lambda>(bestOption, minTotalTime, w1). Inr (bestOption, w1))"

subsection \<open>Transfers\<close>

definition routeStops :: "Route \<Rightarrow> string list" where
  "routeStops route = fold (\<lambda>trip acc. fold Set_add (stops trip) acc) (trips route) []"

definition findTransferPoints :: "Route \<Rightarrow> Route \<Rightarrow> string list" where
  "findTransferPoints route1 route2 =
     filter (\<lambda>stop_id. stop_id \<in> set (routeStops route2)) (routeStops route1)"

text \<open>
  \<^verbatim>\<open>leg1.legs[0].arrival!\<close> and its like read what \<^verbatim>\<open>directBusRoute\<close> has just
  written; a read that found nothing there would end in a \<^verbatim>\<open>TypeError\<close>.
\<close>

definition createTransferRoute :: "Graph \<Rightarrow> Route \<Rightarrow> Route \<Rightarrow> string \<Rightarrow> string \<Rightarrow> string \<Rightarrow> string \<Rightarrow>
    fault + RouteOption option" where
  "createTransferRoute g route1 route2 from_id to_id transferNode requestTime =
     andThen (directBusRoute route1 from_id transferNode requestTime) (\<lambda>first.
       case first of
         None \<Rightarrow> Inr None
       | Some leg1 \<Rightarrow>
           (case (case legs leg1 of [] \<Rightarrow> None | l # _ \<Rightarrow> leg_arrival l) of
              None \<Rightarrow> Inl Thrown
            | Some arrivalAtTransfer \<Rightarrow>
                andThen (directBusRoute route2 transferNode to_id arrivalAtTransfer) (\<lambda>second.
                  case second of
                    None \<Rightarrow> Inr None
                  | Some leg2 \<Rightarrow>
                      (case (case legs leg2 of [] \<Rightarrow> None
                             | l # _ \<Rightarrow> (case (leg_departure l, leg_durationMin l) of
                                          (Some dep, Some dur) \<Rightarrow> Some (dep, dur) | _ \<Rightarrow> None)) of
                         None \<Rightarrow> Inl Thrown
                       | Some (departure2, duration2) \<Rightarrow>
                           andThen (parseTime arrivalAtTransfer) (\<lambda>arrival.
                           andThen (parseTime departure2) (\<lambda>departure.
                             let arrivalMin = int (timeToMinutes arrival);
                                 departureMin = int (timeToMinutes departure);
                                 waitTime = departureMin - arrivalMin
                             in if waitTime < 0 \<or> waitTime > 15 then Inr None
                                else
                                  Inr (Some
                                    \<lparr>label = ''Transfer at '' @
                                       (case getNode g transferNode of
                                          None \<Rightarrow> ''undefined'' | Some n \<Rightarrow> node_name n),
                                     opt_category = fastest, opt_type = transfer, transfers = 1,
                                     totalTimeMin = totalTimeMin leg1 + enat (nat waitTime) + duration2,
                                     opt_totalCost = 0, localTimeMin = 0, localDistanceMeters = 0,
                                     usesDistanceMatrix = False,
                                     legs = legs leg1 @ legs leg2\<rparr>)))))))"

definition findTransferRoutes :: "Graph \<Rightarrow> string \<Rightarrow> string \<Rightarrow> string \<Rightarrow> fault + RouteOption list" where
  "findTransferRoutes g from_id to_id requestTime =
     foldFault
       (\<lambda>route1 acc1.
          foldFault
            (\<lambda>route2 acc2.
               if route_id route1 = route_id route2 then Inr acc2
               else
                 foldFault
                   (\<lambda>transferNode acc3.
                      andThen (createTransferRoute g route1 route2 from_id to_id transferNode requestTime)
                        (\<lambda>option. Inr (acc3 @ opt_list option)))
                   (findTransferPoints route1 route2) acc2)
            (getAllRoutes g) acc1)
       (getAllRoutes g) []"

subsection \<open>Local transport only\<close>

text \<open>
  \<^verbatim>\<open>localPath.edges.map((edge, idx) => ...)\<close> with \<^verbatim>\<open>path[idx]\<close> and
  \<^verbatim>\<open>path[idx + 1]\<close>: a path has one node more than it has edges.
\<close>

fun pathLegs :: "EdgeInfo list \<Rightarrow> string list \<Rightarrow> RouteLeg list" where
  "pathLegs (edge # es) (a # b # pth) =
     \<lparr>leg_mode = ei_mode edge, leg_submode = None, leg_route_id = None, leg_trip_id = None,
      leg_from = a, leg_to = b, leg_departure = None, leg_arrival = None,
      leg_durationMin = Some (enat (ei_time_min edge)), leg_distanceMeters = None,
      leg_cost = Some (ei_cost edge), leg_source = Some graph_source\<rparr>
     # pathLegs es (b # pth)"
| "pathLegs es pth = []"

definition localOnlyRoute :: "Graph \<Rightarrow> (nat \<Rightarrow> dm_env) \<Rightarrow> world \<Rightarrow> string \<Rightarrow> string \<Rightarrow>
    fault + (RouteOption option \<times> world)" where
  "localOnlyRoute g envs w from_id to_id =
     (case localShortestPath g from_id to_id defaultModes of
        None \<Rightarrow> Inl NoReturn
      | Some localPath \<Rightarrow>
          if found localPath then
            Inr (Some
              \<lparr>label = ''Local Transport Only'', opt_category = least_local, opt_type = local_only,
               transfers = 0, totalTimeMin = totalTime localPath, opt_totalCost = totalCost localPath,
               localTimeMin = totalTime localPath, localDistanceMeters = 0,
               usesDistanceMatrix = False,
               legs = pathLegs (path_edges localPath) (path localPath)\<rparr>, w)
          else
            (case callSegment g envs w from_id to_id driving of
               (dmResult, w1) \<Rightarrow>
                 if ok dmResult then
                   (let duration = roundDiv (case durationSeconds dmResult of None \<Rightarrow> 0 | Some v \<Rightarrow> v) 60;
                        distance = (case distanceMeters dmResult of None \<Rightarrow> 0 | Some v \<Rightarrow> v);
                        price = roundDiv distance 100 * 2
                    in Inr (Some
                         \<lparr>label = ''Local Transport Only'', opt_category = least_local,
                          opt_type = local_only, transfers = 0, totalTimeMin = enat duration,
                          opt_totalCost = price, localTimeMin = enat duration,
                          localDistanceMeters = distance, usesDistanceMatrix = True,
                          legs = [\<lparr>leg_mode = local_mode, leg_submode = Some driving,
                                   leg_route_id = None, leg_trip_id = None,
                                   leg_from = from_id, leg_to = to_id,
                                   leg_departure = None, leg_arrival = None,
                                   leg_durationMin = Some (enat duration),
                                   leg_distanceMeters = Some distance, leg_cost = Some price,
                                   leg_source = Some distance_matrix\<rparr>]\<rparr>, w1))
                 else Inr (None, w1)))"

subsection \<open>Comparing the candidates\<close>

definition mode_string :: "mode \<Rightarrow> string" where
  "mode_string m = (case m of bus \<Rightarrow> ''bus'' | local_mode \<Rightarrow> ''local'' | walk \<Rightarrow> ''walk'')"

fun join :: "string \<Rightarrow> string list \<Rightarrow> string" where
  "join sep [] = []"
| "join sep [x] = x"
| "join sep (x # y # zs) = x @ sep @ join sep (y # zs)"

definition getOptionId :: "RouteOption \<Rightarrow> string" where
  "getOptionId option =
     join ''|'' (map (\<lambda>leg. leg_from leg @ ''-'' @ leg_to leg @ ''-'' @ mode_string (leg_mode leg))
                   (legs option))"

fun dedupLoop :: "RouteOption list \<Rightarrow> string list \<Rightarrow> RouteOption list \<Rightarrow> RouteOption list" where
  "dedupLoop [] seen result = result"
| "dedupLoop (option # rest) seen result =
     (let ident = getOptionId option
      in if ident \<notin> set seen then dedupLoop rest (Set_add ident seen) (result @ [option])
         else dedupLoop rest seen result)"

definition deduplicateOptions :: "RouteOption list \<Rightarrow> RouteOption list" where
  "deduplicateOptions opts = dedupLoop opts [] []"

text \<open>
  The candidates are objects, and \<^verbatim>\<open>compareRoutes\<close> writes to two of them while the
  list \<^verbatim>\<open>unique\<close> and the result refer to them. An object is here its index in
  \<^verbatim>\<open>unique\<close>: the two scans return indices, the writes update the list at an index, the
  result is a list of indices, read in the end from the list as the writes left it.
\<close>

fun scanBest :: "(RouteOption \<Rightarrow> enat) \<Rightarrow> RouteOption list \<Rightarrow> nat \<Rightarrow> nat \<Rightarrow> RouteOption list \<Rightarrow> nat" where
  "scanBest f unique best i [] = best"
| "scanBest f unique best i (option # rest) =
     scanBest f unique (if f option < f (unique ! best) then i else best) (Suc i) rest"

fun addOthers :: "RouteOption list \<Rightarrow> nat list \<Rightarrow> nat list \<Rightarrow> string list \<Rightarrow> nat list" where
  "addOthers unique [] result addedIds = result"
| "addOthers unique (j # js) result addedIds =
     (if length result \<ge> 3 then result
      else
        (let ident = getOptionId (unique ! j)
         in if ident \<notin> set addedIds then addOthers unique js (result @ [j]) (Set_add ident addedIds)
            else addOthers unique js result addedIds))"

definition compareRoutes :: "RouteOption list \<Rightarrow> RouteOption list" where
  "compareRoutes opts =
     (if opts = [] then []
      else
        (let unique = deduplicateOptions opts;
             fastestIx = scanBest totalTimeMin unique 0 0 unique;
             leastLocalIx = scanBest localTimeMin unique 0 0 unique;
             unique1 = unique[fastestIx := (unique ! fastestIx)\<lparr>label := ''Fastest Route'', opt_category := fastest\<rparr>];
             result1 = [fastestIx];
             addedIds = [getOptionId (unique1 ! fastestIx)];
             differ = (getOptionId (unique1 ! leastLocalIx) \<noteq> getOptionId (unique1 ! fastestIx));
             unique2 = (if differ
                        then unique1[leastLocalIx :=
                               (unique1 ! leastLocalIx)\<lparr>label := ''Least Local Transport'',
                                                        opt_category := least_local\<rparr>]
                        else unique1);
             result2 = (if differ then result1 @ [leastLocalIx] else result1)
         in map (\<lambda>j. unique2 ! j) (addOthers unique2 [0 ..< length unique2] result2 addedIds)))"

subsection \<open>planRoute\<close>

definition noOptions :: "string \<Rightarrow> string \<Rightarrow> string \<Rightarrow> RouteResponse" where
  "noOptions from_id to_id requestTime =
     \<lparr>resp_from = from_id, resp_to = to_id, resp_requestTime = requestTime, options = []\<rparr>"

definition planRoute :: "Graph \<Rightarrow> (nat \<Rightarrow> dm_env) \<Rightarrow> world \<Rightarrow> string \<Rightarrow> string \<Rightarrow> string \<Rightarrow>
    fault + (RouteResponse \<times> world)" where
  "planRoute g envs w from_id to_id requestTime =
     (if \<not> hasNode g from_id \<or> \<not> hasNode g to_id then Inr (noOptions from_id to_id requestTime, w)
      else if from_id = to_id then Inr (noOptions from_id to_id requestTime, w)
      else
        andThen
          (foldFault
             (\<lambda>route (opts, w0).
                andThen (directBusRoute route from_id to_id requestTime) (\<lambda>directOption.
                andThen (busToLocalRoute g envs w0 route from_id to_id requestTime) (\<lambda>(hybridOption, w1).
                  Inr (opts @ opt_list directOption @ opt_list hybridOption, w1))))
             (getAllRoutes g) ([], w))
          (\<lambda>(opts, w1).
             andThen (findTransferRoutes g from_id to_id requestTime) (\<lambda>transferOptions.
             andThen (localOnlyRoute g envs w1 from_id to_id) (\<lambda>(localOption, w2).
               Inr (\<lparr>resp_from = from_id, resp_to = to_id, resp_requestTime = requestTime,
                      options = compareRoutes (opts @ transferOptions @ opt_list localOption)\<rparr>,
                    w2)))))"

section \<open>Paths of the graph\<close>

text \<open>
  A path of the graph is a sequence of hops. A hop traverses an edge of the data set from
  its \<^verbatim>\<open>from\<close> node to its \<^verbatim>\<open>to\<close> node, or the other way round when the edge is
  not one-way; every edge of a path has an allowed mode. A hop is written as the edge and
  the node it leads to. The time of a path is the sum of the \<^verbatim>\<open>time_min\<close> of its edges.
\<close>

definition traverses :: "Edge \<Rightarrow> string \<Rightarrow> string \<Rightarrow> bool" where
  "traverses e a b =
     ((e_from e = a \<and> e_to e = b) \<or> (e_to e = a \<and> e_from e = b \<and> \<not> e_one_way e))"

fun pathFrom :: "Edge list \<Rightarrow> mode list \<Rightarrow> string \<Rightarrow> (Edge \<times> string) list \<Rightarrow> string \<Rightarrow> bool" where
  "pathFrom E M a [] b = (a = b)"
| "pathFrom E M a ((e, n) # hops) b =
     (e \<in> set E \<and> e_mode e \<in> set M \<and> traverses e a n \<and> pathFrom E M n hops b)"

definition pathTime :: "(Edge \<times> string) list \<Rightarrow> nat" where
  "pathTime hops = sum_list (map (\<lambda>(e, n). e_time_min e) hops)"

section \<open>The invariant of the search\<close>

text \<open>
  The notions the correctness proof of \<^verbatim>\<open>localShortestPath\<close> works with: paths over
  the adjacency index, the tentative distance of a node (\<open>\<infinity>\<close> for a key without entry),
  what relaxing a list of edges of the current node achieves, chains of predecessors that
  end inside the visited nodes, and the invariant and the postcondition of the loop.
\<close>

fun apath :: "(string \<Rightarrow> EdgeInfo list) \<Rightarrow> mode list \<Rightarrow> string \<Rightarrow> EdgeInfo list \<Rightarrow> string \<Rightarrow> bool" where
  "apath N M a [] b = (a = b)"
| "apath N M a (i # p) b = (i \<in> set (N a) \<and> ei_mode i \<in> set M \<and> apath N M (ei_to i) p b)"

definition atime :: "EdgeInfo list \<Rightarrow> nat" where
  "atime p = sum_list (map ei_time_min p)"

definition nbrs :: "(string \<rightharpoonup> EdgeInfo list) \<Rightarrow> string \<Rightarrow> EdgeInfo list" where
  "nbrs adj a = (case adj a of None \<Rightarrow> [] | Some es \<Rightarrow> es)"

definition dist_of :: "dijkstra_state \<Rightarrow> string \<Rightarrow> enat" where
  "dist_of s n = (case distances s n of None \<Rightarrow> \<infinity> | Some d \<Rightarrow> d)"


definition fires :: "mode list \<Rightarrow> string \<Rightarrow> dijkstra_state \<Rightarrow> EdgeInfo \<Rightarrow> bool" where
  "fires M c s e \<longleftrightarrow> ei_mode e \<in> set M \<and> ei_to e \<in> set (unvisited s) \<and>
     dist_of s c + enat (ei_time_min e) < dist_of s (ei_to e)"


definition relaxed :: "mode list \<Rightarrow> string \<Rightarrow> EdgeInfo list \<Rightarrow> dijkstra_state \<Rightarrow> dijkstra_state \<Rightarrow> bool" where
  "relaxed M c es s s' \<longleftrightarrow>
     unvisited s' = unvisited s \<and> dom (distances s') = dom (distances s) \<and>
     dom (costs s') = dom (costs s) \<and>
     (\<forall>n. dist_of s' n \<le> dist_of s n) \<and>
     (\<forall>n. n \<notin> set (unvisited s) \<longrightarrow> dist_of s' n = dist_of s n \<and> previous s' n = previous s n) \<and>
     (\<forall>n. dist_of s' n \<noteq> dist_of s n \<longrightarrow>
          (\<exists>e \<in> set es. ei_mode e \<in> set M \<and> ei_to e = n \<and>
                        dist_of s' n = dist_of s c + enat (ei_time_min e))) \<and>
     (\<forall>e \<in> set es. ei_mode e \<in> set M \<longrightarrow> ei_to e \<in> set (unvisited s) \<longrightarrow>
          dist_of s' (ei_to e) \<le> dist_of s c + enat (ei_time_min e)) \<and>
     (\<forall>n. previous s' n \<noteq> previous s n \<longrightarrow> previous s' n = Some (Some c))"


inductive chainEnds :: "(string \<rightharpoonup> string option) \<Rightarrow> string set \<Rightarrow> string \<Rightarrow> bool"
  for prev :: "string \<rightharpoonup> string option" and V :: "string set" where
  stop: "n \<in> V \<Longrightarrow> truthyPrevious prev n = None \<Longrightarrow> chainEnds prev V n"
| step: "n \<in> V \<Longrightarrow> truthyPrevious prev n = Some p \<Longrightarrow> chainEnds prev V p \<Longrightarrow> chainEnds prev V n"

definition dinv :: "(string \<Rightarrow> EdgeInfo list) \<Rightarrow> mode list \<Rightarrow> string list \<Rightarrow> string \<Rightarrow> dijkstra_state \<Rightarrow> bool" where
  "dinv N M ids a s \<longleftrightarrow>
     set (unvisited s) \<subseteq> set ids \<and> dom (distances s) = set ids \<and> dom (costs s) = set ids \<and>
     dist_of s a = 0 \<and>
     (\<forall>n k. dist_of s n = enat k \<longrightarrow> (\<exists>p. apath N M a p n \<and> atime p = k)) \<and>
     (\<forall>n. n \<in> set ids \<longrightarrow> n \<notin> set (unvisited s) \<longrightarrow>
          dist_of s n \<noteq> \<infinity> \<and> (\<forall>p. apath N M a p n \<longrightarrow> dist_of s n \<le> enat (atime p))) \<and>
     (\<forall>x e. x \<in> set ids \<longrightarrow> x \<notin> set (unvisited s) \<longrightarrow> e \<in> set (N x) \<longrightarrow> ei_mode e \<in> set M \<longrightarrow>
          ei_to e \<in> set (unvisited s) \<longrightarrow> dist_of s (ei_to e) \<le> dist_of s x + enat (ei_time_min e)) \<and>
     (\<forall>n. n \<in> set ids \<longrightarrow> n \<notin> set (unvisited s) \<longrightarrow>
          chainEnds (previous s) (set ids - set (unvisited s)) n) \<and>
     (\<forall>n p. n \<in> set (unvisited s) \<longrightarrow> truthyPrevious (previous s) n = Some p \<longrightarrow>
          p \<in> set ids \<and> p \<notin> set (unvisited s))"


text \<open>
  The time spent so far is bounded by the edges that touch a visited node: \<open>spent E U\<close>
  is the total time of the edges of \<open>E\<close> with an end outside the unvisited nodes \<open>U\<close>,
  and no tentative distance exceeds it. This keeps the sums of the search within the
  natural numbers that are doubles when the edges of the graph do so in total.
\<close>

definition spent :: "Edge list \<Rightarrow> string list \<Rightarrow> nat" where
  "spent E U = sum_list (map e_time_min (filter (\<lambda>e. e_from e \<notin> set U \<or> e_to e \<notin> set U) E))"

definition dbound :: "Edge list \<Rightarrow> dijkstra_state \<Rightarrow> bool" where
  "dbound E s \<longleftrightarrow> (\<forall>n k. dist_of s n = enat k \<longrightarrow> k \<le> spent E (unvisited s))"

text \<open>
  Whatever the sums round to, a node gets a finite distance only when a path leads to it.
\<close>

definition rinv :: "(string \<Rightarrow> EdgeInfo list) \<Rightarrow> mode list \<Rightarrow> string list \<Rightarrow> string \<Rightarrow> dijkstra_state \<Rightarrow> bool" where
  "rinv N M ids a s \<longleftrightarrow>
     dom (distances s) = set ids \<and> set (unvisited s) \<subseteq> set ids \<and>
     (\<forall>n. dist_of s n \<noteq> \<infinity> \<longrightarrow> (\<exists>p. apath N M a p n))"

definition dpost :: "(string \<Rightarrow> EdgeInfo list) \<Rightarrow> mode list \<Rightarrow> string list \<Rightarrow> string \<Rightarrow> string \<Rightarrow> dijkstra_state \<Rightarrow> bool" where
  "dpost N M ids a b s \<longleftrightarrow>
     dom (distances s) = set ids \<and>
     (dist_of s b = \<infinity> \<longrightarrow> (\<forall>p. \<not> apath N M a p b)) \<and>
     (\<forall>k. dist_of s b = enat k \<longrightarrow>
          (\<exists>p. apath N M a p b \<and> atime p = k) \<and> (\<forall>p. apath N M a p b \<longrightarrow> k \<le> atime p) \<and>
          chainEnds (previous s) (set ids - set (unvisited s)) b)"


section \<open>The Direct strategy in the words of the specification\<close>

text \<open>
  The specification describes the Direct strategy trip by trip. \<open>spec_qualifyingTrip\<close> is
  its condition on a trip: the stop sequence contains both stops, the boarding index lies
  strictly before the alighting index, and the estimated boarding time (the departure time
  plus 5 minutes per hop before the boarding stop) is not earlier than the requested time.
  \<open>spec_tripCandidate\<close> is the candidate it describes for such a trip: the ride takes
  5 minutes per hop, and the total time is the wait plus the ride. Both read a time with
  \<open>minutesOf\<close>, which is meant for time strings that \<open>parseTime\<close> accepts.
\<close>

definition decimalTime :: "string \<Rightarrow> bool" where
  "decimalTime timeStr = (case parseTime timeStr of Inr t \<Rightarrow> True | Inl e \<Rightarrow> False)"

text \<open>
  A time of day: a time string that \<open>parseTime\<close> accepts, with hours below 24 and minutes
  below 60. The model reads a run of digits and adds minutes as natural numbers; on times
  of day every number that the Direct strategy forms is far below \<open>2 ^ 53\<close>, where the
  doubles of the code are these natural numbers.
\<close>

definition clockTime :: "string \<Rightarrow> bool" where
  "clockTime timeStr =
     (case parseTime timeStr of Inr t \<Rightarrow> hours t < 24 \<and> minutes t < 60 | Inl e \<Rightarrow> False)"

definition minutesOf :: "string \<Rightarrow> nat" where
  "minutesOf timeStr = (case parseTime timeStr of Inr t \<Rightarrow> timeToMinutes t | Inl e \<Rightarrow> 0)"

definition spec_qualifyingTrip :: "string \<Rightarrow> string \<Rightarrow> string \<Rightarrow> Trip \<Rightarrow> bool" where
  "spec_qualifyingTrip from_id to_id requestTime trip =
     (case (indexOf (stops trip) from_id, indexOf (stops trip) to_id) of
        (Some boarding, Some alighting) \<Rightarrow>
          boarding < alighting \<and>
          minutesOf requestTime \<le> minutesOf (departure_time trip) + boarding * 5
      | _ \<Rightarrow> False)"

definition spec_tripCandidate :: "Route \<Rightarrow> string \<Rightarrow> string \<Rightarrow> string \<Rightarrow> Trip \<Rightarrow> RouteOption" where
  "spec_tripCandidate route from_id to_id requestTime trip =
     (let boarding = (case indexOf (stops trip) from_id of Some i \<Rightarrow> i | None \<Rightarrow> 0);
          alighting = (case indexOf (stops trip) to_id of Some j \<Rightarrow> j | None \<Rightarrow> 0);
          boardingTime = minutesOf (departure_time trip) + boarding * 5;
          ride = (alighting - boarding) * 5;
          wait = boardingTime - minutesOf requestTime
      in \<lparr>label = route_name route @ '' Direct'', opt_category = fastest, opt_type = direct,
           transfers = 0, totalTimeMin = enat (wait + ride), opt_totalCost = 0, localTimeMin = 0,
           localDistanceMeters = 0, usesDistanceMatrix = False,
           legs = [busLeg route trip from_id to_id
                     (minutesToTime (boardingTime mod 1440))
                     (minutesToTime ((boardingTime + ride) mod 1440)) ride]\<rparr>)"

subsection \<open>Shapes of a result\<close>

text \<open>
  A result is well formed when it is either a success that carries both figures and no
  message, or a failure that carries a message. It is fresh when it is not marked as
  served from the cache.
\<close>

definition wellFormed :: "DistanceMatrixResult \<Rightarrow> bool" where
  "wellFormed r = ((ok r \<and> errorMessage r = None \<and> distanceMeters r \<noteq> None \<and> durationSeconds r \<noteq> None)
       \<or> (\<not> ok r \<and> errorMessage r \<noteq> None))"

definition fresh :: "DistanceMatrixResult \<Rightarrow> bool" where
  "fresh r = (fromCache r \<noteq> Some True)"

section \<open>Example data\<close>

text \<open>
  The graph of the scenario of the specification: three stops and one route whose single
  trip calls at them in order and leaves at 08:00. It has no local or walking edge.
\<close>

definition nodeA :: Node where
  "nodeA = \<lparr>node_id = ''A'', node_name = ''Stop A'', node_kind = stop, gmaps_address = ''A, Sylhet''\<rparr>"

definition nodeB :: Node where
  "nodeB = \<lparr>node_id = ''B'', node_name = ''Stop B'', node_kind = stop, gmaps_address = ''B, Sylhet''\<rparr>"

definition nodeC :: Node where
  "nodeC = \<lparr>node_id = ''C'', node_name = ''Stop C'', node_kind = stop, gmaps_address = ''C, Sylhet''\<rparr>"

definition tripABC :: "string \<Rightarrow> string \<Rightarrow> Trip" where
  "tripABC tid dep = \<lparr>trip_id = tid, trip_direction = to_campus,
     stops = [''A'', ''B'', ''C''], departure_time = dep\<rparr>"

definition routeABC :: "Trip list \<Rightarrow> Route" where
  "routeABC ts = \<lparr>route_id = ''r1'', route_name = ''Route 1'', trips = ts\<rparr>"

definition scenarioGraph :: Graph where
  "scenarioGraph =
     \<lparr>nodes = [(''A'', nodeA), (''B'', nodeB), (''C'', nodeC)],
      edges = [],
      routes = [(''r1'', routeABC [tripABC ''r1_0800'' ''08:00''])],
      adjacencyList = [''A'' \<mapsto> [], ''B'' \<mapsto> [], ''C'' \<mapsto> []]\<rparr>"

text \<open>A configured client, and the outside world of a call that meets one outcome.\<close>

definition clientWith :: "nat \<Rightarrow> nat \<Rightarrow> string \<Rightarrow> (string \<rightharpoonup> CacheEntry) \<Rightarrow> DistanceMatrixClient" where
  "clientWith monthly daily day entries =
     \<lparr>apiKey = ''key'', cache = entries,
      usageStats = \<lparr>monthlyCount = monthly, dailyCount = daily, lastReset = day,
                     cacheHits = 0, cacheMisses = 0\<rparr>\<rparr>"

definition envAt :: "string \<Rightarrow> int \<Rightarrow> http_outcome \<Rightarrow> dm_env" where
  "envAt day now out = \<lparr>today = day, now_lookup = now, outcome = (\<lambda>_. out), now_store = now\<rparr>"

definition entryAt :: "int \<Rightarrow> CacheEntry" where
  "entryAt t = \<lparr>ce_distanceMeters = 1200, ce_durationSeconds = 300, ce_timestamp = t\<rparr>"

definition deniedBody :: "dm_data option" where
  "deniedBody = Some \<lparr>status = Some ''REQUEST_DENIED'', rows = None\<rparr>"

text \<open>
  A client without API key, the same graph with one walking edge between A and C, a route
  with a second trip at 09:00, a world in which every request is refused, and a client
  that holds a cached estimate for the pair (B, C).
\<close>

definition offlineClient :: DistanceMatrixClient where
  "offlineClient = \<lparr>apiKey = [], cache = Map.empty,
     usageStats = \<lparr>monthlyCount = 0, dailyCount = 0, lastReset = ''2026-11-03'', cacheHits = 0, cacheMisses = 0\<rparr>\<rparr>"

definition walkEdge :: Edge where
  "walkEdge = \<lparr>e_from = ''A'', e_to = ''C'', e_mode = walk, e_route_ids = None, e_time_min = 3, e_cost = 0, e_one_way = False\<rparr>"

definition walkGraph :: Graph where
  "walkGraph = \<lparr>nodes = [(''A'', nodeA), (''B'', nodeB), (''C'', nodeC)],
      edges = [walkEdge],
      routes = [(''r1'', routeABC [tripABC ''r1_0800'' ''08:00''])],
      adjacencyList = [''A'' \<mapsto> [edgeInfo walkEdge], ''B'' \<mapsto> [], ''C'' \<mapsto> [reverseInfo walkEdge]]\<rparr>"

definition startWorld :: "DistanceMatrixClient \<Rightarrow> world" where
  "startWorld c = \<lparr>client = c, calls = 0, sent = []\<rparr>"

definition noNetwork :: "nat \<Rightarrow> dm_env" where
  "noNetwork k = envAt ''2026-11-03'' 5000 (Rejected ''connect ECONNREFUSED'')"

definition directABC :: RouteOption where
  "directABC = \<lparr>label = ''Route 1 Direct'', opt_category = fastest,
          opt_type = direct, transfers = 0, totalTimeMin = 15,
          opt_totalCost = 0, localTimeMin = 0, localDistanceMeters = 0,
          usesDistanceMatrix = False,
          legs =
            [\<lparr>leg_mode = bus, leg_submode = None,
                leg_route_id = Some ''r1'', leg_trip_id = Some ''r1_0800'',
                leg_from = ''A'', leg_to = ''C'',
                leg_departure = Some ''08:00'',
                leg_arrival = Some ''08:10'', leg_durationMin = Some 10,
                leg_distanceMeters = None, leg_cost = Some 0,
                leg_source = Some graph_source\<rparr>]\<rparr>"

definition cachedClient :: DistanceMatrixClient where
  "cachedClient = clientWith 0 0 ''2026-11-03'' [''B|C|driving'' \<mapsto> entryAt 1000]"

definition twoTrips :: Route where
  "twoTrips = routeABC [tripABC ''r1_0800'' ''08:00'', tripABC ''r1_0900'' ''09:00'']"

text \<open>
  Three walking and local edges between A, B and C: 5 minutes from A to C directly, 2 and
  2 minutes by way of B.
\<close>

definition edgeAC :: Edge where
  "edgeAC = \<lparr>e_from = ''A'', e_to = ''C'', e_mode = walk, e_route_ids = None,
     e_time_min = 5, e_cost = 0, e_one_way = False\<rparr>"

definition edgeAB :: Edge where
  "edgeAB = \<lparr>e_from = ''A'', e_to = ''B'', e_mode = walk, e_route_ids = None,
     e_time_min = 2, e_cost = 0, e_one_way = False\<rparr>"

definition edgeBC :: Edge where
  "edgeBC = \<lparr>e_from = ''B'', e_to = ''C'', e_mode = local_mode, e_route_ids = None,
     e_time_min = 2, e_cost = 20, e_one_way = False\<rparr>"

definition detourGraph :: Graph where
  "detourGraph =
     \<lparr>nodes = [(''A'', nodeA), (''B'', nodeB), (''C'', nodeC)],
      edges = [edgeAC, edgeAB, edgeBC],
      routes = [],
      adjacencyList = [''A'' \<mapsto> [edgeInfo edgeAC, edgeInfo edgeAB],
                       ''B'' \<mapsto> [reverseInfo edgeAB, edgeInfo edgeBC],
                       ''C'' \<mapsto> [reverseInfo edgeAC, reverseInfo edgeBC]]\<rparr>"

section \<open>Properties of the graph search\<close>

subsection \<open>The adjacency index and the paths\<close>

lemma getNeighbors_nbrs: "getNeighbors g = nbrs (adjacencyList g)"
  by (rule ext) (simp add: getNeighbors_def nbrs_def)

lemma adjPush_Some:
  assumes "adjPush k i adj = Some adj'"
  shows "dom adj' = dom adj"
    and "set (nbrs adj' a) = set (nbrs adj a) \<union> (if a = k then {i} else {})"
proof -
  from assms obtain es where es: "adj k = Some es" and adj': "adj' = adj(k \<mapsto> es @ [i])"
    by (auto simp: adjPush_def split: option.splits)
  from es adj' show "dom adj' = dom adj" by auto
  from es adj' show "set (nbrs adj' a) = set (nbrs adj a) \<union> (if a = k then {i} else {})"
    by (auto simp: nbrs_def)
qed

lemma addEdge_Some:
  assumes "addEdge e adj = Some adj'"
  shows "dom adj' = dom adj"
    and "set (nbrs adj' a) = set (nbrs adj a)
           \<union> (if a = e_from e then {edgeInfo e} else {})
           \<union> (if a = e_to e \<and> \<not> e_one_way e then {reverseInfo e} else {})"
proof -
  from assms obtain adj1 where p1: "adjPush (e_from e) (edgeInfo e) adj = Some adj1"
    and p2: "(if \<not> e_one_way e then adjPush (e_to e) (reverseInfo e) adj1 else Some adj1) = Some adj'"
    by (auto simp: addEdge_def split: option.splits)
  show "dom adj' = dom adj"
  proof (cases "e_one_way e")
    case True
    with p2 adjPush_Some(1) [OF p1] show ?thesis by simp
  next
    case False
    with p2 have "adjPush (e_to e) (reverseInfo e) adj1 = Some adj'" by simp
    from adjPush_Some(1) [OF this] adjPush_Some(1) [OF p1] show ?thesis by simp
  qed
  show "set (nbrs adj' a) = set (nbrs adj a)
           \<union> (if a = e_from e then {edgeInfo e} else {})
           \<union> (if a = e_to e \<and> \<not> e_one_way e then {reverseInfo e} else {})"
  proof (cases "e_one_way e")
    case True
    with p2 adjPush_Some(2) [OF p1, of a] show ?thesis by simp
  next
    case False
    with p2 have "adjPush (e_to e) (reverseInfo e) adj1 = Some adj'" by simp
    from adjPush_Some(2) [OF this, of a] adjPush_Some(2) [OF p1, of a] False show ?thesis by auto
  qed
qed

lemma addEdges_Some:
  "addEdges es adj = Some adj' \<Longrightarrow>
   dom adj' = dom adj \<and>
   set (nbrs adj' a) = set (nbrs adj a)
      \<union> {edgeInfo e | e. e \<in> set es \<and> e_from e = a}
      \<union> {reverseInfo e | e. e \<in> set es \<and> e_to e = a \<and> \<not> e_one_way e}"
proof (induction es arbitrary: adj)
  case Nil
  then show ?case by simp
next
  case (Cons e es)
  from Cons.prems obtain adj1 where a1: "addEdge e adj = Some adj1" and a2: "addEdges es adj1 = Some adj'"
    by (auto split: option.splits)
  from Cons.IH [OF a2] addEdge_Some(1) [OF a1] addEdge_Some(2) [OF a1, of a] show ?case by auto
qed

lemma initAdjacency_apply:
  "fold (\<lambda>nodeId adj. adj(nodeId \<mapsto> [])) ids adj0 k = (if k \<in> set ids then Some [] else adj0 k)"
  by (induction ids arbitrary: adj0) auto

lemma initAdjacency_props:
  "dom (initAdjacency ids) = set ids" "nbrs (initAdjacency ids) a = []"
  by (auto simp: initAdjacency_def initAdjacency_apply nbrs_def dom_def)

text \<open>What loading guarantees about the adjacency index.\<close>

lemma buildAdjacencyList_neighbors:
  assumes "buildAdjacencyList g0 = Some g"
  shows "nodes g = nodes g0" "edges g = edges g0" "routes g = routes g0"
    and "set (getNeighbors g a) =
           {edgeInfo e | e. e \<in> set (edges g) \<and> e_from e = a}
         \<union> {reverseInfo e | e. e \<in> set (edges g) \<and> e_to e = a \<and> \<not> e_one_way e}"
    and "a \<notin> set (Map_keys (nodes g)) \<Longrightarrow> getNeighbors g a = []"
proof -
  from assms obtain adj where ad: "addEdges (edges g0) (initAdjacency (Map_keys (nodes g0))) = Some adj"
    and g: "g = g0\<lparr>adjacencyList := adj\<rparr>"
    by (auto simp: buildAdjacencyList_def split: option.splits)
  from g show "nodes g = nodes g0" "edges g = edges g0" "routes g = routes g0" by simp_all
  from addEdges_Some [OF ad, of a] g
  show "set (getNeighbors g a) =
           {edgeInfo e | e. e \<in> set (edges g) \<and> e_from e = a}
         \<union> {reverseInfo e | e. e \<in> set (edges g) \<and> e_to e = a \<and> \<not> e_one_way e}"
    by (simp add: getNeighbors_nbrs initAdjacency_props)
  show "getNeighbors g a = []" if "a \<notin> set (Map_keys (nodes g))"
  proof -
    from addEdges_Some [OF ad, of a] have "dom adj = set (Map_keys (nodes g0))"
      by (simp add: initAdjacency_props)
    with that g have "adj a = None" by auto
    with g show ?thesis by (simp add: getNeighbors_def)
  qed
qed

lemma loadData_loaded:
  assumes "loadData nodesData edgesData routesData g0 = Some g"
  shows "\<exists>g1. buildAdjacencyList g1 = Some g"
  using assms unfolding loadData_def by blast

lemma pathFrom_apath:
  assumes nb: "\<And>a. set (N a) =
           {edgeInfo e | e. e \<in> set E \<and> e_from e = a}
         \<union> {reverseInfo e | e. e \<in> set E \<and> e_to e = a \<and> \<not> e_one_way e}"
  shows "pathFrom E M a hops b \<Longrightarrow> \<exists>p. apath N M a p b \<and> atime p = pathTime hops"
proof (induction hops arbitrary: a)
  case Nil
  then have "apath N M a [] b \<and> atime [] = pathTime []" by (simp add: atime_def pathTime_def)
  then show ?case by blast
next
  case (Cons hop hops)
  obtain e n where hop: "hop = (e, n)" by (cases hop)
  with Cons.prems have e: "e \<in> set E" "e_mode e \<in> set M" "traverses e a n" and rest: "pathFrom E M n hops b"
    by simp_all
  from Cons.IH [OF rest] obtain p where p: "apath N M n p b" "atime p = pathTime hops" by blast
  from e(3) have "\<exists>i. i \<in> set (N a) \<and> ei_to i = n \<and> ei_mode i = e_mode e \<and> ei_time_min i = e_time_min e"
  proof (cases "e_from e = a \<and> e_to e = n")
    case True
    with e(1) have "edgeInfo e \<in> set (N a)" by (auto simp: nb)
    with True show ?thesis by (intro exI [of _ "edgeInfo e"]) (simp add: edgeInfo_def)
  next
    case False
    with e(3) have r: "e_to e = a" "e_from e = n" "\<not> e_one_way e" by (auto simp: traverses_def)
    with e(1) have "reverseInfo e \<in> set (N a)" by (auto simp: nb)
    with r show ?thesis by (intro exI [of _ "reverseInfo e"]) (simp add: reverseInfo_def)
  qed
  then obtain i where i: "i \<in> set (N a)" "ei_to i = n" "ei_mode i = e_mode e" "ei_time_min i = e_time_min e"
    by blast
  with p e(2) hop have "apath N M a (i # p) b \<and> atime (i # p) = pathTime (hop # hops)"
    by (simp add: atime_def pathTime_def)
  then show ?case by blast
qed

lemma apath_pathFrom:
  assumes nb: "\<And>a. set (N a) =
           {edgeInfo e | e. e \<in> set E \<and> e_from e = a}
         \<union> {reverseInfo e | e. e \<in> set E \<and> e_to e = a \<and> \<not> e_one_way e}"
  shows "apath N M a p b \<Longrightarrow> \<exists>hops. pathFrom E M a hops b \<and> pathTime hops = atime p"
proof (induction p arbitrary: a)
  case Nil
  then have "pathFrom E M a [] b \<and> pathTime [] = atime []" by (simp add: atime_def pathTime_def)
  then show ?case by blast
next
  case (Cons i p)
  then have i: "i \<in> set (N a)" "ei_mode i \<in> set M" and rest: "apath N M (ei_to i) p b" by simp_all
  from Cons.IH [OF rest] obtain hops where h: "pathFrom E M (ei_to i) hops b" "pathTime hops = atime p"
    by blast
  from i(1) have "\<exists>e. e \<in> set E \<and> traverses e a (ei_to i) \<and> e_mode e = ei_mode i \<and> e_time_min e = ei_time_min i"
    unfolding nb
  proof
    assume "i \<in> {edgeInfo e | e. e \<in> set E \<and> e_from e = a}"
    then obtain e where "e \<in> set E" "e_from e = a" "i = edgeInfo e" by blast
    then show ?thesis by (intro exI [of _ e]) (simp add: traverses_def edgeInfo_def)
  next
    assume "i \<in> {reverseInfo e | e. e \<in> set E \<and> e_to e = a \<and> \<not> e_one_way e}"
    then obtain e where "e \<in> set E" "e_to e = a" "\<not> e_one_way e" "i = reverseInfo e" by blast
    then show ?thesis by (intro exI [of _ e]) (simp add: traverses_def reverseInfo_def)
  qed
  then obtain e where e: "e \<in> set E" "traverses e a (ei_to i)" "e_mode e = ei_mode i" "e_time_min e = ei_time_min i"
    by blast
  with h i(2) have "pathFrom E M a ((e, ei_to i) # hops) b \<and> pathTime ((e, ei_to i) # hops) = atime (i # p)"
    by (simp add: atime_def pathTime_def)
  then show ?case by blast
qed

subsection \<open>Sums of doubles and of edge times\<close>

text \<open>
  The test \<open>n \<le> 2 ^ 53\<close> of \<open>roundDouble\<close> is evaluated over the integers, whose numerals
  are binary.
\<close>

lemma roundDouble_code [code]:
  "roundDouble n =
     (if int n \<le> 2 ^ 53 then enat n
      else
        (let e = dropBits n; q = n div 2 ^ e; r = n mod 2 ^ e;
             m = (if 2 * r < 2 ^ e \<or> (2 * r = 2 ^ e \<and> even q) then q else q + 1) * 2 ^ e
         in if m \<ge> 2 ^ 1024 then \<infinity> else enat m))"
proof -
  have "int n \<le> 2 ^ 53 \<longleftrightarrow> n \<le> 2 ^ 53"
    using of_nat_le_iff [of n "2 ^ 53", where ?'a = int] by simp
  then show ?thesis by (simp only: roundDouble_def)
qed

lemma jsAdd_exact: "x + enat t \<le> enat (2 ^ 53) \<Longrightarrow> jsAdd x t = x + enat t"
  by (cases x) (simp_all add: jsAdd_def roundDouble_def)

lemma dropBits_small: "n < 2 ^ 53 \<Longrightarrow> dropBits n = 0"
  by (subst dropBits.simps) simp

lemma dropBits_large: "\<not> n < 2 ^ 53 \<Longrightarrow> dropBits n = Suc (dropBits (n div 2))"
  by (subst dropBits.simps) simp

text \<open>
  Beyond \<open>2 ^ 53\<close> a sum is rounded: adding 1 to \<open>2 ^ 53\<close> changes nothing, a tie goes to
  the even neighbour, and the largest sums are \<^verbatim>\<open>Infinity\<close>.
\<close>

lemma jsAdd_rounds: "jsAdd (enat (2 ^ 53)) 1 = enat (2 ^ 53)"
  by (simp add: jsAdd_def roundDouble_def dropBits_large dropBits_small)

lemma roundDouble_ties:
  "roundDouble (2 ^ 53 + 3) = enat (2 ^ 53 + 4)"
  "roundDouble (2 ^ 54 + 2) = enat (2 ^ 54)"
  "roundDouble (2 ^ 54 + 6) = enat (2 ^ 54 + 8)"
  by (simp_all add: roundDouble_def dropBits_large dropBits_small)

lemma roundDouble_overflow: "roundDouble (2 ^ 1024 - 2 ^ 970) = \<infinity>"
  by (simp add: roundDouble_def dropBits_large dropBits_small)

lemma sum_filter_mono:
  fixes f :: "'a \<Rightarrow> nat"
  shows "(\<And>x. x \<in> set xs \<Longrightarrow> P x \<Longrightarrow> Q x) \<Longrightarrow>
     sum_list (map f (filter P xs)) \<le> sum_list (map f (filter Q xs))"
  by (induction xs) auto

lemma sum_filter_gain:
  fixes f :: "'a \<Rightarrow> nat"
  shows "(\<And>x. x \<in> set xs \<Longrightarrow> P x \<Longrightarrow> Q x) \<Longrightarrow> y \<in> set xs \<Longrightarrow> Q y \<Longrightarrow> \<not> P y \<Longrightarrow>
     sum_list (map f (filter P xs)) + f y \<le> sum_list (map f (filter Q xs))"
proof (induction xs)
  case Nil
  then show ?case by simp
next
  case (Cons x xs)
  have mono: "sum_list (map f (filter P xs)) \<le> sum_list (map f (filter Q xs))"
    by (rule sum_filter_mono) (use Cons.prems(1) in auto)
  show ?case
  proof (cases "y = x")
    case True
    with Cons.prems(3,4) mono show ?thesis by simp
  next
    case False
    with Cons.prems(2) have y: "y \<in> set xs" by simp
    have "sum_list (map f (filter P xs)) + f y \<le> sum_list (map f (filter Q xs))"
      by (rule Cons.IH [OF _ y Cons.prems(3,4)]) (use Cons.prems(1) in auto)
    moreover have "P x \<Longrightarrow> Q x" using Cons.prems(1) [of x] by simp
    ultimately show ?thesis by auto
  qed
qed

lemma spent_total: "spent E U \<le> sum_list (map e_time_min E)"
  using sum_filter_mono [of E "\<lambda>e. e_from e \<notin> set U \<or> e_to e \<notin> set U" "\<lambda>e. True" e_time_min]
  by (simp add: spent_def)

lemma spent_mono: "set U' \<subseteq> set U \<Longrightarrow> spent E U \<le> spent E U'"
  unfolding spent_def by (rule sum_filter_mono) auto

lemma spent_gain:
  assumes "e \<in> set E" and "e_from e \<in> set U" and "e_to e \<in> set U"
    and "set U' \<subseteq> set U" and "e_from e \<notin> set U' \<or> e_to e \<notin> set U'"
  shows "spent E U + e_time_min e \<le> spent E U'"
  unfolding spent_def
  by (rule sum_filter_gain) (use assms in auto)

text \<open>An entry of the adjacency index comes from an edge between the same two nodes.\<close>

lemma neighbor_edge:
  assumes nb: "\<And>a. set (N a) =
           {edgeInfo e | e. e \<in> set E \<and> e_from e = a}
         \<union> {reverseInfo e | e. e \<in> set E \<and> e_to e = a \<and> \<not> e_one_way e}"
    and i: "i \<in> set (N x)"
  shows "\<exists>e \<in> set E. e_time_min e = ei_time_min i \<and>
           ((e_from e = x \<and> e_to e = ei_to i) \<or> (e_to e = x \<and> e_from e = ei_to i))"
  using i unfolding nb by (auto simp: edgeInfo_def reverseInfo_def)

subsection \<open>Selecting and relaxing\<close>

lemma scanMin_spec:
  "scanMin d ns (cur, md) = (res, m) \<Longrightarrow>
   m \<le> md \<and> (\<forall>n \<in> set ns. \<forall>dn. d n = Some dn \<longrightarrow> m \<le> dn) \<and>
   ((res = cur \<and> m = md) \<or> (\<exists>c \<in> set ns. res = Some c \<and> d c = Some m \<and> m < md))"
proof (induction ns arbitrary: cur md)
  case Nil
  then show ?case by simp
next
  case (Cons n ns)
  show ?case
  proof (cases "d n")
    case None
    with Cons.prems have "scanMin d ns (cur, md) = (res, m)" by simp
    from Cons.IH [OF this] None show ?thesis by auto
  next
    case (Some dn)
    show ?thesis
    proof (cases "dn < md")
      case True
      with Cons.prems Some have "scanMin d ns (Some n, dn) = (res, m)" by simp
      from Cons.IH [OF this] Some True show ?thesis by (auto intro: order.trans less_imp_le)
    next
      case False
      with Cons.prems Some have "scanMin d ns (cur, md) = (res, m)" by simp
      from Cons.IH [OF this] Some False show ?thesis by (auto intro: order.trans)
    qed
  qed
qed

lemma scanMin_start:
  assumes "scanMin d ns (None, \<infinity>) = (res, m)"
  shows "\<forall>n \<in> set ns. \<forall>dn. d n = Some dn \<longrightarrow> m \<le> dn"
    and "res = None \<Longrightarrow> m = \<infinity>"
    and "res = Some c \<Longrightarrow> c \<in> set ns \<and> d c = Some m \<and> m \<noteq> \<infinity>"
  using scanMin_spec [OF assms] by auto

lemma relaxEdge_eq:
  assumes "distances s c = Some dc" and "costs s c = Some cc"
    and "set (unvisited s) \<subseteq> dom (distances s)"
    and ex: "ei_mode e \<in> set M \<Longrightarrow> ei_to e \<in> set (unvisited s) \<Longrightarrow>
               dc + enat (ei_time_min e) \<le> enat (2 ^ 53)"
  shows "relaxEdge M c s e =
     (if fires M c s e then
        s\<lparr>distances := (distances s)(ei_to e \<mapsto> dc + enat (ei_time_min e)),
          costs := (costs s)(ei_to e \<mapsto> cc + ei_cost e),
          previous := (previous s)(ei_to e \<mapsto> Some c),
          edgeMap := (edgeMap s)(ei_to e \<mapsto> e)\<rparr>
      else s)"
proof (cases "ei_mode e \<in> set M \<and> ei_to e \<in> set (unvisited s)")
  case False
  then show ?thesis by (auto simp: relaxEdge_def fires_def)
next
  case True
  with ex have j: "jsAdd dc (ei_time_min e) = dc + enat (ei_time_min e)"
    by (intro jsAdd_exact) simp
  from True assms(3) obtain dt where dt: "distances s (ei_to e) = Some dt" by auto
  with True assms(1,2) show ?thesis
    by (simp add: relaxEdge_def fires_def dist_of_def Let_def j)
qed

lemma relaxed_refl: "relaxed M c [] s s"
  by (simp add: relaxed_def)

lemma relaxed_step:
  assumes r: "relaxed M c es s sp"
    and c: "c \<notin> set (unvisited s)" "c \<in> dom (distances s)"
    and d: "dom (costs s) = dom (distances s)" "set (unvisited s) \<subseteq> dom (distances s)"
    and ex: "ei_mode e \<in> set M \<Longrightarrow> ei_to e \<in> set (unvisited s) \<Longrightarrow>
               dist_of s c + enat (ei_time_min e) \<le> enat (2 ^ 53)"
  shows "relaxed M c (es @ [e]) s (relaxEdge M c sp e)"
proof -
  from r have u: "unvisited sp = unvisited s" and dd: "dom (distances sp) = dom (distances s)"
    and dc: "dom (costs sp) = dom (costs s)"
    and le: "\<And>n. dist_of sp n \<le> dist_of s n"
    and vis: "\<And>n. n \<notin> set (unvisited s) \<Longrightarrow> dist_of sp n = dist_of s n \<and> previous sp n = previous s n"
    and ch: "\<And>n. dist_of sp n \<noteq> dist_of s n \<Longrightarrow>
          (\<exists>e \<in> set es. ei_mode e \<in> set M \<and> ei_to e = n \<and>
                        dist_of sp n = dist_of s c + enat (ei_time_min e))"
    and rlx: "\<And>e. e \<in> set es \<Longrightarrow> ei_mode e \<in> set M \<Longrightarrow> ei_to e \<in> set (unvisited s) \<Longrightarrow>
          dist_of sp (ei_to e) \<le> dist_of s c + enat (ei_time_min e)"
    and pr: "\<And>n. previous sp n \<noteq> previous s n \<Longrightarrow> previous sp n = Some (Some c)"
    unfolding relaxed_def by blast+
  from c(2) dd obtain dcur where dcur: "distances sp c = Some dcur" by auto
  from c(2) d(1) dc obtain ccur where ccur: "costs sp c = Some ccur" by auto
  from d(2) u dd have sub: "set (unvisited sp) \<subseteq> dom (distances sp)" by simp
  have cs: "dist_of sp c = dist_of s c" using vis [OF c(1)] by simp
  have dcur': "dcur = dist_of s c" using dcur cs by (simp add: dist_of_def)
  let ?s' = "relaxEdge M c sp e"
  have ex': "dcur + enat (ei_time_min e) \<le> enat (2 ^ 53)"
    if "ei_mode e \<in> set M" "ei_to e \<in> set (unvisited sp)"
    using ex that u dcur' by simp
  note eq = relaxEdge_eq [where M = M and e = e, OF dcur ccur sub ex']
  show ?thesis
  proof (cases "fires M c sp e")
    case False
    with eq have same: "?s' = sp" by simp
    have "dist_of sp (ei_to e) \<le> dist_of s c + enat (ei_time_min e)"
      if "ei_mode e \<in> set M" "ei_to e \<in> set (unvisited s)"
      using that False u cs by (simp add: fires_def)
    with r rlx show ?thesis
      unfolding same relaxed_def by auto
  next
    case True
    then have f: "ei_mode e \<in> set M" "ei_to e \<in> set (unvisited s)"
      "dist_of s c + enat (ei_time_min e) < dist_of sp (ei_to e)"
      using u cs by (simp_all add: fires_def)
    from True eq have s': "?s' =
        sp\<lparr>distances := (distances sp)(ei_to e \<mapsto> dcur + enat (ei_time_min e)),
          costs := (costs sp)(ei_to e \<mapsto> ccur + ei_cost e),
          previous := (previous sp)(ei_to e \<mapsto> Some c),
          edgeMap := (edgeMap sp)(ei_to e \<mapsto> e)\<rparr>" by simp
    have dist': "dist_of ?s' n = (if n = ei_to e then dist_of s c + enat (ei_time_min e) else dist_of sp n)" for n
      unfolding s' by (simp add: dist_of_def dcur')
    have prev': "previous ?s' n = (if n = ei_to e then Some (Some c) else previous sp n)" for n
      unfolding s' by simp
    from f(2) d(2) dd have ind: "ei_to e \<in> dom (distances sp)" by auto
    from f(2) d dc have inc: "ei_to e \<in> dom (costs sp)" by auto
    have p1: "unvisited ?s' = unvisited s" unfolding s' using u by simp
    have p2: "dom (distances ?s') = dom (distances s)" unfolding s' using dd ind by auto
    have p3: "dom (costs ?s') = dom (costs s)" unfolding s' using dc inc by auto
    have p4: "dist_of ?s' n \<le> dist_of s n" for n
    proof (cases "n = ei_to e")
      case True
      with f(3) le [of n] show ?thesis by (simp add: dist')
    next
      case False
      with le [of n] show ?thesis by (simp add: dist')
    qed
    have p5: "dist_of ?s' n = dist_of s n \<and> previous ?s' n = previous s n" if "n \<notin> set (unvisited s)" for n
    proof -
      from that f(2) have "n \<noteq> ei_to e" by auto
      with vis [OF that] show ?thesis by (simp add: dist' prev')
    qed
    have p6: "\<exists>e' \<in> set (es @ [e]). ei_mode e' \<in> set M \<and> ei_to e' = n \<and>
                        dist_of ?s' n = dist_of s c + enat (ei_time_min e')"
      if "dist_of ?s' n \<noteq> dist_of s n" for n
    proof (cases "n = ei_to e")
      case True
      with f(1) show ?thesis by (auto simp: dist')
    next
      case False
      with that have "dist_of sp n \<noteq> dist_of s n" by (simp add: dist')
      from ch [OF this] False show ?thesis by (auto simp: dist')
    qed
    have p7: "dist_of ?s' (ei_to e') \<le> dist_of s c + enat (ei_time_min e')"
      if "e' \<in> set (es @ [e])" "ei_mode e' \<in> set M" "ei_to e' \<in> set (unvisited s)" for e'
    proof (cases "e' \<in> set es")
      case True
      from rlx [OF True that(2,3)] have a: "dist_of sp (ei_to e') \<le> dist_of s c + enat (ei_time_min e')" .
      show ?thesis
      proof (cases "ei_to e' = ei_to e")
        case True
        with f(3) have lt: "dist_of s c + enat (ei_time_min e) < dist_of sp (ei_to e')" by simp
        from less_le_trans [OF lt a]
        have "dist_of s c + enat (ei_time_min e) \<le> dist_of s c + enat (ei_time_min e')"
          by (rule less_imp_le)
        moreover have "dist_of (relaxEdge M c sp e) (ei_to e') = dist_of s c + enat (ei_time_min e)"
          using True by (simp add: dist')
        ultimately show ?thesis by (simp only:)
      next
        case False
        with a show ?thesis by (simp add: dist')
      qed
    next
      case False
      with that(1) have "e' = e" by simp
      then show ?thesis by (simp add: dist')
    qed
    have p8: "previous ?s' n = Some (Some c)" if "previous ?s' n \<noteq> previous s n" for n
    proof (cases "n = ei_to e")
      case True
      then show ?thesis by (simp add: prev')
    next
      case False
      with that have "previous sp n \<noteq> previous s n" by (simp add: prev')
      from pr [OF this] False show ?thesis by (simp add: prev')
    qed
    from p1 p2 p3 p4 p5 p6 p7 p8 show ?thesis
      unfolding relaxed_def by blast
  qed
qed

lemma relaxed_fold:
  assumes "c \<notin> set (unvisited s)" "c \<in> dom (distances s)"
    and "dom (costs s) = dom (distances s)" "set (unvisited s) \<subseteq> dom (distances s)"
  shows "(\<And>e. e \<in> set es \<Longrightarrow> ei_mode e \<in> set M \<Longrightarrow> ei_to e \<in> set (unvisited s) \<Longrightarrow>
             dist_of s c + enat (ei_time_min e) \<le> enat (2 ^ 53)) \<Longrightarrow>
         relaxed M c es s (foldl (relaxEdge M c) s es)"
proof (induction es rule: rev_induct)
  case Nil
  show ?case by (simp add: relaxed_refl)
next
  case (snoc e es)
  have r: "relaxed M c es s (foldl (relaxEdge M c) s es)"
    by (rule snoc.IH) (rule snoc.prems, simp_all)
  have ex: "dist_of s c + enat (ei_time_min e) \<le> enat (2 ^ 53)"
    if "ei_mode e \<in> set M" "ei_to e \<in> set (unvisited s)"
    using snoc.prems [of e] that by simp
  from relaxed_step [OF r assms ex] show ?case by simp
qed

subsection \<open>The invariant\<close>

lemma dinvD:
  assumes "dinv N M ids a s"
  shows "set (unvisited s) \<subseteq> set ids" "dom (distances s) = set ids" "dom (costs s) = set ids"
    and "dist_of s a = 0"
    and "\<And>n k. dist_of s n = enat k \<Longrightarrow> \<exists>p. apath N M a p n \<and> atime p = k"
    and "\<And>n. n \<in> set ids \<Longrightarrow> n \<notin> set (unvisited s) \<Longrightarrow> dist_of s n \<noteq> \<infinity>"
    and "\<And>n p. n \<in> set ids \<Longrightarrow> n \<notin> set (unvisited s) \<Longrightarrow> apath N M a p n \<Longrightarrow> dist_of s n \<le> enat (atime p)"
    and "\<And>x e. x \<in> set ids \<Longrightarrow> x \<notin> set (unvisited s) \<Longrightarrow> e \<in> set (N x) \<Longrightarrow> ei_mode e \<in> set M \<Longrightarrow>
          ei_to e \<in> set (unvisited s) \<Longrightarrow> dist_of s (ei_to e) \<le> dist_of s x + enat (ei_time_min e)"
    and "\<And>n. n \<in> set ids \<Longrightarrow> n \<notin> set (unvisited s) \<Longrightarrow>
          chainEnds (previous s) (set ids - set (unvisited s)) n"
    and "\<And>n p. n \<in> set (unvisited s) \<Longrightarrow> truthyPrevious (previous s) n = Some p \<Longrightarrow>
          p \<in> set ids \<and> p \<notin> set (unvisited s)"
  using assms unfolding dinv_def by blast+

lemma dist_of_Some: "n \<in> dom (distances s) \<Longrightarrow> distances s n = Some (dist_of s n)"
  by (auto simp: dist_of_def)

lemma atime_simps [simp]:
  "atime [] = 0" "atime (e # p) = ei_time_min e + atime p" "atime (p @ q) = atime p + atime q"
  by (simp_all add: atime_def)

lemma apath_snoc:
  "apath N M a p x \<Longrightarrow> e \<in> set (N x) \<Longrightarrow> ei_mode e \<in> set M \<Longrightarrow> apath N M a (p @ [e]) (ei_to e)"
  by (induction p arbitrary: a) auto

lemma apath_isolated:
  "N y = [] \<Longrightarrow> apath N M y p b \<Longrightarrow> y = b"
  by (cases p) auto

lemma visited_edge:
  assumes inv: "dinv N M ids a s"
    and x: "x \<in> set ids" "x \<notin> set (unvisited s)"
    and e: "e \<in> set (N x)" "ei_mode e \<in> set M"
    and y: "ei_to e \<in> set ids" "ei_to e \<notin> set (unvisited s)"
  shows "dist_of s (ei_to e) \<le> dist_of s x + enat (ei_time_min e)"
proof -
  from dinvD(6) [OF inv x] obtain kx where kx: "dist_of s x = enat kx" by (cases "dist_of s x") auto
  from dinvD(5) [OF inv kx] obtain q where q: "apath N M a q x" "atime q = kx" by blast
  from apath_snoc [OF q(1) e] have "apath N M a (q @ [e]) (ei_to e)" .
  from dinvD(7) [OF inv y this] q(2) kx show ?thesis by simp
qed

lemma lower_bound:
  assumes inv: "dinv N M ids a s"
    and iso: "\<And>y. y \<notin> set ids \<Longrightarrow> N y = []"
    and least: "\<And>n. n \<in> set (unvisited s) \<Longrightarrow> m \<le> dist_of s n"
    and b: "b \<in> set (unvisited s)"
  shows "apath N M x p b \<Longrightarrow> x \<in> set ids \<Longrightarrow> x \<notin> set (unvisited s) \<Longrightarrow>
         m \<le> dist_of s x + enat (atime p)"
proof (induction p arbitrary: x)
  case Nil
  with b show ?case by simp
next
  case (Cons e p)
  from Cons.prems have e: "e \<in> set (N x)" "ei_mode e \<in> set M" and rest: "apath N M (ei_to e) p b"
    by simp_all
  let ?y = "ei_to e"
  have split: "dist_of s x + enat (atime (e # p)) = dist_of s x + enat (ei_time_min e) + enat (atime p)"
    by (simp add: add.assoc)
  show ?case
  proof (cases "?y \<in> set (unvisited s)")
    case True
    from dinvD(8) [OF inv Cons.prems(2,3) e True] least [OF True]
    have "m \<le> dist_of s x + enat (ei_time_min e)" by (rule order.trans [rotated])
    also have "\<dots> \<le> dist_of s x + enat (ei_time_min e) + enat (atime p)" by simp
    finally show ?thesis unfolding split .
  next
    case False
    show ?thesis
    proof (cases "?y \<in> set ids")
      case True
      from Cons.IH [OF rest True False] have "m \<le> dist_of s ?y + enat (atime p)" .
      also from visited_edge [OF inv Cons.prems(2,3) e True False]
      have "dist_of s ?y + enat (atime p) \<le> dist_of s x + enat (ei_time_min e) + enat (atime p)"
        by (rule add_right_mono)
      finally show ?thesis unfolding split .
    next
      case notin: False
      from apath_isolated [OF iso [OF notin] rest] have "?y = b" .
      with b dinvD(1) [OF inv] notin show ?thesis by auto
    qed
  qed
qed

lemma selected_exact:
  assumes inv: "dinv N M ids a s"
    and iso: "\<And>y. y \<notin> set ids \<Longrightarrow> N y = []"
    and c: "c \<in> set (unvisited s)"
    and least: "\<And>n. n \<in> set (unvisited s) \<Longrightarrow> dist_of s c \<le> dist_of s n"
    and p: "apath N M a p c"
  shows "dist_of s c \<le> enat (atime p)"
proof (cases "a \<in> set (unvisited s)")
  case True
  from least [OF True] dinvD(4) [OF inv] show ?thesis by simp
next
  case False
  from dinvD(4) [OF inv] dinvD(2) [OF inv] have "a \<in> set ids"
    by (auto simp: dist_of_def zero_enat_def split: option.splits)
  from lower_bound [OF inv iso least c p this False] dinvD(4) [OF inv] show ?thesis by simp
qed

lemma exhausted_unreachable:
  assumes inv: "dinv N M ids a s"
    and iso: "\<And>y. y \<notin> set ids \<Longrightarrow> N y = []"
    and far: "\<And>n. n \<in> set (unvisited s) \<Longrightarrow> dist_of s n = \<infinity>"
    and b: "b \<in> set (unvisited s)"
  shows "\<not> apath N M a p b"
proof
  assume p: "apath N M a p b"
  show False
  proof (cases "a \<in> set (unvisited s)")
    case True
    from far [OF True] dinvD(4) [OF inv] show False by simp
  next
    case False
    from dinvD(4) [OF inv] dinvD(2) [OF inv] have a: "a \<in> set ids"
      by (auto simp: dist_of_def zero_enat_def split: option.splits)
    have "\<infinity> \<le> dist_of s n" if "n \<in> set (unvisited s)" for n using far [OF that] by simp
    from lower_bound [OF inv iso this b p a False] dinvD(4) [OF inv] show False by simp
  qed
qed

lemma relaxedD:
  assumes "relaxed M c es s s'"
  shows "unvisited s' = unvisited s" "dom (distances s') = dom (distances s)"
    "dom (costs s') = dom (costs s)"
    and "\<And>n. dist_of s' n \<le> dist_of s n"
    and "\<And>n. n \<notin> set (unvisited s) \<Longrightarrow> dist_of s' n = dist_of s n \<and> previous s' n = previous s n"
    and "\<And>n. dist_of s' n \<noteq> dist_of s n \<Longrightarrow>
          (\<exists>e \<in> set es. ei_mode e \<in> set M \<and> ei_to e = n \<and>
                        dist_of s' n = dist_of s c + enat (ei_time_min e))"
    and "\<And>e. e \<in> set es \<Longrightarrow> ei_mode e \<in> set M \<Longrightarrow> ei_to e \<in> set (unvisited s) \<Longrightarrow>
          dist_of s' (ei_to e) \<le> dist_of s c + enat (ei_time_min e)"
    and "\<And>n. previous s' n \<noteq> previous s n \<Longrightarrow> previous s' n = Some (Some c)"
  using assms unfolding relaxed_def by blast+

lemma dinvI:
  assumes "set (unvisited s) \<subseteq> set ids" "dom (distances s) = set ids" "dom (costs s) = set ids"
    and "dist_of s a = 0"
    and "\<And>n k. dist_of s n = enat k \<Longrightarrow> \<exists>p. apath N M a p n \<and> atime p = k"
    and "\<And>n. n \<in> set ids \<Longrightarrow> n \<notin> set (unvisited s) \<Longrightarrow>
          dist_of s n \<noteq> \<infinity> \<and> (\<forall>p. apath N M a p n \<longrightarrow> dist_of s n \<le> enat (atime p))"
    and "\<And>x e. x \<in> set ids \<Longrightarrow> x \<notin> set (unvisited s) \<Longrightarrow> e \<in> set (N x) \<Longrightarrow> ei_mode e \<in> set M \<Longrightarrow>
          ei_to e \<in> set (unvisited s) \<Longrightarrow> dist_of s (ei_to e) \<le> dist_of s x + enat (ei_time_min e)"
    and "\<And>n. n \<in> set ids \<Longrightarrow> n \<notin> set (unvisited s) \<Longrightarrow>
          chainEnds (previous s) (set ids - set (unvisited s)) n"
    and "\<And>n p. n \<in> set (unvisited s) \<Longrightarrow> truthyPrevious (previous s) n = Some p \<Longrightarrow>
          p \<in> set ids \<and> p \<notin> set (unvisited s)"
  shows "dinv N M ids a s"
  unfolding dinv_def using assms by blast


lemma chainEnds_mono:
  assumes "chainEnds prev V n" and "V \<subseteq> V'"
  shows "chainEnds prev V' n"
  using assms(1)
proof (induction rule: chainEnds.induct)
  case (stop n)
  from stop(1) assms(2) have "n \<in> V'" by (rule subsetD [rotated])
  then show ?case using stop(2) by (rule chainEnds.stop)
next
  case (step n p)
  from step(1) assms(2) have "n \<in> V'" by (rule subsetD [rotated])
  then show ?case using step(2) step.IH by (rule chainEnds.step)
qed

lemma truthyPrevious_cong:
  "prev' n = prev n \<Longrightarrow> truthyPrevious prev' n = truthyPrevious prev n"
  by (simp add: truthyPrevious_def)

lemma chainEnds_cong:
  assumes "chainEnds prev V n" and same: "\<And>x. x \<in> V \<Longrightarrow> prev' x = prev x"
  shows "chainEnds prev' V n"
  using assms(1)
proof (induction rule: chainEnds.induct)
  case (stop n)
  from same [OF stop(1)] have "truthyPrevious prev' n = truthyPrevious prev n"
    by (rule truthyPrevious_cong)
  with stop(2) have "truthyPrevious prev' n = None" by simp
  with stop(1) show ?case by (rule chainEnds.stop)
next
  case (step n p)
  from same [OF step(1)] have "truthyPrevious prev' n = truthyPrevious prev n"
    by (rule truthyPrevious_cong)
  with step(2) have "truthyPrevious prev' n = Some p" by simp
  with step(1) show ?case using step.IH by (rule chainEnds.step)
qed

lemma chain_selected:
  assumes inv: "dinv N M ids a s" and c: "c \<in> set (unvisited s)"
  shows "chainEnds (previous s) (set ids - (set (unvisited s) - {c})) c"
proof -
  let ?V = "set ids - set (unvisited s)" and ?V' = "set ids - (set (unvisited s) - {c})"
  from c dinvD(1) [OF inv] have cV: "c \<in> ?V'" by auto
  show ?thesis
  proof (cases "truthyPrevious (previous s) c")
    case None
    with cV show ?thesis by (rule chainEnds.stop)
  next
    case (Some p)
    from dinvD(10) [OF inv c Some] have "p \<in> set ids" "p \<notin> set (unvisited s)" by simp_all
    from dinvD(9) [OF inv this] have "chainEnds (previous s) ?V p" .
    then have "chainEnds (previous s) ?V' p" by (rule chainEnds_mono) auto
    with cV Some show ?thesis by (rule chainEnds.step)
  qed
qed

text \<open>
  One round of the loop relaxes the edges of the selected node, provided that the sums it
  forms are exact.
\<close>

lemma step_relaxed:
  assumes inv: "dinv N M ids a s"
    and c: "c \<in> set (unvisited s)"
    and ex: "\<And>e. e \<in> set (N c) \<Longrightarrow> ei_mode e \<in> set M \<Longrightarrow> ei_to e \<in> set (unvisited s) \<Longrightarrow>
               dist_of s c + enat (ei_time_min e) \<le> enat (2 ^ 53)"
  shows "relaxed M c (N c) (s\<lparr>unvisited := Set_delete c (unvisited s)\<rparr>)
           (foldl (relaxEdge M c) (s\<lparr>unvisited := Set_delete c (unvisited s)\<rparr>) (N c))"
proof -
  let ?s1 = "s\<lparr>unvisited := Set_delete c (unvisited s)\<rparr>"
  note sub = dinvD(1) [OF inv] and dd = dinvD(2) [OF inv] and dc = dinvD(3) [OF inv]
  from c sub have cid: "c \<in> set ids" by auto
  have u1: "set (unvisited ?s1) = set (unvisited s) - {c}" by (auto simp: Set_delete_def)
  have d1: "dist_of ?s1 = dist_of s" by (rule ext) (simp add: dist_of_def)
  have us1: "unvisited ?s1 = removeAll c (unvisited s)" by (simp add: Set_delete_def)
  have ds1: "distances ?s1 = distances s" "costs ?s1 = costs s" by simp_all
  show ?thesis
  proof (rule relaxed_fold)
    show "c \<notin> set (unvisited ?s1)" unfolding us1 by simp
    show "c \<in> dom (distances ?s1)" unfolding ds1 dd by (rule cid)
    show "dom (costs ?s1) = dom (distances ?s1)" unfolding ds1 dd dc ..
    show "set (unvisited ?s1) \<subseteq> dom (distances ?s1)" unfolding ds1 dd us1 using sub by auto
    show "dist_of ?s1 c + enat (ei_time_min e) \<le> enat (2 ^ 53)"
      if "e \<in> set (N c)" "ei_mode e \<in> set M" "ei_to e \<in> set (unvisited ?s1)" for e
    proof -
      from that(3) have "ei_to e \<in> set (unvisited s)" unfolding u1 by simp
      from ex [OF that(1,2) this] show ?thesis unfolding d1 .
    qed
  qed
qed

lemma dinv_step:
  assumes inv: "dinv N M ids a s"
    and iso: "\<And>y. y \<notin> set ids \<Longrightarrow> N y = []"
    and c: "c \<in> set (unvisited s)"
    and fin: "dist_of s c \<noteq> \<infinity>"
    and least: "\<And>n. n \<in> set (unvisited s) \<Longrightarrow> dist_of s c \<le> dist_of s n"
    and ex: "\<And>e. e \<in> set (N c) \<Longrightarrow> ei_mode e \<in> set M \<Longrightarrow> ei_to e \<in> set (unvisited s) \<Longrightarrow>
               dist_of s c + enat (ei_time_min e) \<le> enat (2 ^ 53)"
  shows "dinv N M ids a
           (foldl (relaxEdge M c) (s\<lparr>unvisited := Set_delete c (unvisited s)\<rparr>) (N c))"
proof -
  let ?s1 = "s\<lparr>unvisited := Set_delete c (unvisited s)\<rparr>"
  let ?s2 = "foldl (relaxEdge M c) ?s1 (N c)"
  let ?U = "set (unvisited s)" and ?U' = "set (unvisited s) - {c}"
  note sub = dinvD(1) [OF inv] and dd = dinvD(2) [OF inv] and dc = dinvD(3) [OF inv]
  from c sub have cid: "c \<in> set ids" by auto
  have u1: "set (unvisited ?s1) = ?U'" by (auto simp: Set_delete_def)
  have d1: "dist_of ?s1 = dist_of s" by (rule ext) (simp add: dist_of_def)
  have us1: "unvisited ?s1 = removeAll c (unvisited s)" by (simp add: Set_delete_def)
  have ds1: "distances ?s1 = distances s" "costs ?s1 = costs s" "previous ?s1 = previous s" by simp_all
  have r: "relaxed M c (N c) ?s1 ?s2" by (rule step_relaxed [OF inv c ex])
  have u2: "unvisited ?s2 = unvisited ?s1" by (rule relaxedD(1) [OF r])
  have dd2: "dom (distances ?s2) = set ids" using relaxedD(2) [OF r] unfolding ds1 dd .
  have dc2: "dom (costs ?s2) = set ids" using relaxedD(3) [OF r] unfolding ds1 dc .
  have le: "dist_of ?s2 n \<le> dist_of s n" for n using relaxedD(4) [OF r, of n] unfolding d1 .
  have vis: "dist_of ?s2 n = dist_of s n \<and> previous ?s2 n = previous s n" if "n \<notin> ?U'" for n
  proof -
    from that have "n \<notin> set (unvisited ?s1)" unfolding u1 .
    from relaxedD(5) [OF r this] show ?thesis unfolding d1 ds1 .
  qed
  have ch: "\<exists>e \<in> set (N c). ei_mode e \<in> set M \<and> ei_to e = n \<and>
                        dist_of ?s2 n = dist_of s c + enat (ei_time_min e)"
    if "dist_of ?s2 n \<noteq> dist_of s n" for n
  proof -
    from that have "dist_of ?s2 n \<noteq> dist_of ?s1 n" unfolding d1 .
    from relaxedD(6) [OF r this] show ?thesis unfolding d1 .
  qed
  have rlx: "dist_of ?s2 (ei_to e) \<le> dist_of s c + enat (ei_time_min e)"
    if "e \<in> set (N c)" "ei_mode e \<in> set M" "ei_to e \<in> ?U'" for e
  proof -
    from that(3) have "ei_to e \<in> set (unvisited ?s1)" unfolding u1 .
    from relaxedD(7) [OF r that(1,2) this] show ?thesis unfolding d1 .
  qed
  have pr: "previous ?s2 n = Some (Some c)" if "previous ?s2 n \<noteq> previous s n" for n
  proof -
    from that have "previous ?s2 n \<noteq> previous ?s1 n" unfolding ds1 .
    from relaxedD(8) [OF r this] show ?thesis .
  qed
  have U2: "set (unvisited ?s2) = ?U'" using u2 u1 by simp
  have exact: "dist_of s c \<le> enat (atime p)" if "apath N M a p c" for p
    by (rule selected_exact [OF inv iso c least that])
  have i1: "set (unvisited ?s2) \<subseteq> set ids" using U2 sub by auto
  have i4: "dist_of ?s2 a = 0" using le [of a] dinvD(4) [OF inv] by simp
  have i5: "\<exists>p. apath N M a p n \<and> atime p = k" if "dist_of ?s2 n = enat k" for n k
  proof (cases "dist_of ?s2 n = dist_of s n")
    case True
    with that dinvD(5) [OF inv, of n k] show ?thesis by simp
  next
    case False
    from ch [OF False] obtain e where e: "e \<in> set (N c)" "ei_mode e \<in> set M" "ei_to e = n"
      "dist_of ?s2 n = dist_of s c + enat (ei_time_min e)" by blast
    from fin obtain kc where kc: "dist_of s c = enat kc" by (cases "dist_of s c") auto
    from dinvD(5) [OF inv kc] obtain q where q: "apath N M a q c" "atime q = kc" by blast
    from apath_snoc [OF q(1) e(1,2)] e(3) have "apath N M a (q @ [e]) n" by simp
    moreover from that e(4) kc q(2) have "atime (q @ [e]) = k" by simp
    ultimately show ?thesis by blast
  qed
  have i6: "dist_of ?s2 n \<noteq> \<infinity> \<and> (\<forall>p. apath N M a p n \<longrightarrow> dist_of ?s2 n \<le> enat (atime p))"
    if "n \<in> set ids" "n \<notin> set (unvisited ?s2)" for n
  proof -
    from that(2) U2 have nU: "n \<notin> ?U'" by simp
    from vis [OF nU] have same: "dist_of ?s2 n = dist_of s n" by simp
    show ?thesis
    proof (cases "n = c")
      case True
      with same fin exact show ?thesis by simp
    next
      case False
      with nU have "n \<notin> ?U" by simp
      from dinvD(6) [OF inv that(1) this] dinvD(7) [OF inv that(1) this] same show ?thesis by simp
    qed
  qed
  have i7: "dist_of ?s2 (ei_to e) \<le> dist_of ?s2 x + enat (ei_time_min e)"
    if "x \<in> set ids" "x \<notin> set (unvisited ?s2)" "e \<in> set (N x)" "ei_mode e \<in> set M"
       "ei_to e \<in> set (unvisited ?s2)" for x e
  proof -
    from that(2) U2 have xU: "x \<notin> ?U'" by simp
    from vis [OF xU] have same: "dist_of ?s2 x = dist_of s x" by simp
    from that(5) U2 have t: "ei_to e \<in> ?U'" by simp
    show ?thesis
    proof (cases "x = c")
      case True
      with rlx [OF _ that(4) t] that(3) same show ?thesis by simp
    next
      case False
      with xU have "x \<notin> ?U" by simp
      from dinvD(8) [OF inv that(1) this that(3,4)] t
      have "dist_of s (ei_to e) \<le> dist_of s x + enat (ei_time_min e)" by simp
      with le [of "ei_to e"] same show ?thesis by (simp add: order.trans)
    qed
  qed
  have V': "set ids - set (unvisited ?s2) = set ids - ?U'" using U2 by simp
  have i8: "chainEnds (previous ?s2) (set ids - set (unvisited ?s2)) n"
    if "n \<in> set ids" "n \<notin> set (unvisited ?s2)" for n
  proof -
    from that(2) U2 have nU: "n \<notin> ?U'" by simp
    have "chainEnds (previous s) (set ids - ?U') n"
    proof (cases "n = c")
      case True
      with chain_selected [OF inv c] show ?thesis by simp
    next
      case False
      with nU have "n \<notin> ?U" by simp
      from dinvD(9) [OF inv that(1) this] show ?thesis by (rule chainEnds_mono) auto
    qed
    then have "chainEnds (previous ?s2) (set ids - ?U') n"
      by (rule chainEnds_cong) (use vis in auto)
    then show ?thesis unfolding V' .
  qed
  have i9: "p \<in> set ids \<and> p \<notin> set (unvisited ?s2)"
    if "n \<in> set (unvisited ?s2)" "truthyPrevious (previous ?s2) n = Some p" for n p
  proof (cases "previous ?s2 n = previous s n")
    case True
    then have "truthyPrevious (previous ?s2) n = truthyPrevious (previous s) n"
      by (rule truthyPrevious_cong)
    with that(2) have "truthyPrevious (previous s) n = Some p" by simp
    moreover from that(1) U2 have "n \<in> ?U" by simp
    ultimately have "p \<in> set ids \<and> p \<notin> ?U" by (rule dinvD(10) [OF inv, rotated])
    with U2 show ?thesis by auto
  next
    case False
    from pr [OF this] that(2) have "p = c"
      by (auto simp: truthyPrevious_def split: if_splits)
    with cid U2 show ?thesis by simp
  qed
  from i1 dd2 dc2 i4 i5 i6 i7 i8 i9 show ?thesis
    by (rule dinvI)
qed

subsection \<open>The bound on the distances\<close>

lemma step_exact:
  assumes bd: "dbound E s"
    and nb: "\<And>a. set (N a) =
           {edgeInfo e | e. e \<in> set E \<and> e_from e = a}
         \<union> {reverseInfo e | e. e \<in> set E \<and> e_to e = a \<and> \<not> e_one_way e}"
    and total: "sum_list (map e_time_min E) \<le> 2 ^ 53"
    and c: "c \<in> set (unvisited s)" and fin: "dist_of s c = enat kc"
    and i: "i \<in> set (N c)" "ei_to i \<in> set (unvisited s)"
  shows "kc + ei_time_min i \<le> spent E (removeAll c (unvisited s))"
    and "dist_of s c + enat (ei_time_min i) \<le> enat (2 ^ 53)"
proof -
  from bd fin have k: "kc \<le> spent E (unvisited s)" unfolding dbound_def by blast
  from neighbor_edge [of N E i c, OF nb i(1)]
  obtain e where e: "e \<in> set E" "e_time_min e = ei_time_min i"
    and ends: "(e_from e = c \<and> e_to e = ei_to i) \<or> (e_to e = c \<and> e_from e = ei_to i)"
    by blast
  have "spent E (unvisited s) + e_time_min e \<le> spent E (removeAll c (unvisited s))"
  proof (rule spent_gain [OF e(1)])
    show "e_from e \<in> set (unvisited s)" using ends c i(2) by auto
    show "e_to e \<in> set (unvisited s)" using ends c i(2) by auto
    show "set (removeAll c (unvisited s)) \<subseteq> set (unvisited s)" by auto
    show "e_from e \<notin> set (removeAll c (unvisited s)) \<or> e_to e \<notin> set (removeAll c (unvisited s))"
      using ends by auto
  qed
  with k e(2) show g: "kc + ei_time_min i \<le> spent E (removeAll c (unvisited s))" by simp
  from g spent_total [of E "removeAll c (unvisited s)"] total
  have "kc + ei_time_min i \<le> 2 ^ 53" by simp
  with fin show "dist_of s c + enat (ei_time_min i) \<le> enat (2 ^ 53)" by simp
qed

lemma dbound_step:
  assumes bd: "dbound E s"
    and nb: "\<And>a. set (N a) =
           {edgeInfo e | e. e \<in> set E \<and> e_from e = a}
         \<union> {reverseInfo e | e. e \<in> set E \<and> e_to e = a \<and> \<not> e_one_way e}"
    and total: "sum_list (map e_time_min E) \<le> 2 ^ 53"
    and c: "c \<in> set (unvisited s)" and fin: "dist_of s c = enat kc"
    and r: "relaxed M c (N c) (s\<lparr>unvisited := Set_delete c (unvisited s)\<rparr>) s2"
  shows "dbound E s2"
  unfolding dbound_def
proof (intro allI impI)
  fix n k
  assume nk: "dist_of s2 n = enat k"
  let ?s1 = "s\<lparr>unvisited := Set_delete c (unvisited s)\<rparr>"
  have d1: "dist_of ?s1 = dist_of s" by (rule ext) (simp add: dist_of_def)
  have u1: "unvisited ?s1 = removeAll c (unvisited s)" by (simp add: Set_delete_def)
  have u2: "unvisited s2 = removeAll c (unvisited s)"
    using relaxedD(1) [OF r] u1 by simp
  have vis: "dist_of s2 n = dist_of ?s1 n" if "n \<notin> set (unvisited ?s1)" for n
    using relaxedD(5) [OF r that] by simp
  have ch: "\<exists>e \<in> set (N c). ei_to e = n \<and> dist_of s2 n = dist_of ?s1 c + enat (ei_time_min e)"
    if "dist_of s2 n \<noteq> dist_of ?s1 n" for n
    using relaxedD(6) [OF r that] by blast
  show "k \<le> spent E (unvisited s2)"
  proof (cases "dist_of s2 n = dist_of s n")
    case True
    with nk bd have "k \<le> spent E (unvisited s)" unfolding dbound_def by simp
    also have "\<dots> \<le> spent E (unvisited s2)" unfolding u2 by (rule spent_mono) auto
    finally show ?thesis .
  next
    case False
    then have ne: "dist_of s2 n \<noteq> dist_of ?s1 n" unfolding d1 .
    from ch [OF ne] obtain e where e: "e \<in> set (N c)" "ei_to e = n"
      "dist_of s2 n = dist_of s c + enat (ei_time_min e)" unfolding d1 by blast
    from vis [of n] ne have "n \<in> set (unvisited ?s1)" by blast
    then have "n \<in> set (unvisited s)" unfolding u1 by simp
    with e(2) have t: "ei_to e \<in> set (unvisited s)" by simp
    from step_exact(1) [OF bd nb total c fin e(1) t]
    have "kc + ei_time_min e \<le> spent E (removeAll c (unvisited s))" .
    moreover from nk e(3) fin have "k = kc + ei_time_min e" by simp
    ultimately show ?thesis unfolding u2 by simp
  qed
qed

subsection \<open>The loop and the result\<close>

lemma dijkstraLoop_dpost:
  assumes iso: "\<And>y. y \<notin> set ids \<Longrightarrow> N y = []"
    and nb: "\<And>a. set (N a) =
           {edgeInfo e | e. e \<in> set E \<and> e_from e = a}
         \<union> {reverseInfo e | e. e \<in> set E \<and> e_to e = a \<and> \<not> e_one_way e}"
    and total: "sum_list (map e_time_min E) \<le> 2 ^ 53"
  shows "dinv N M ids a s \<Longrightarrow> dbound E s \<Longrightarrow> b \<in> set (unvisited s) \<Longrightarrow>
         dpost N M ids a b (dijkstraLoop N M b s)"
proof (induction "length (unvisited s)" arbitrary: s rule: less_induct)
  case less
  note inv = less.prems(1) and bd = less.prems(2) and b = less.prems(3)
  note sub = dinvD(1) [OF inv] and dd = dinvD(2) [OF inv]
  from b have ne: "unvisited s \<noteq> []" by auto
  obtain res m where sc: "scanMin (distances s) (unvisited s) (None, \<infinity>) = (res, m)"
    by (cases "scanMin (distances s) (unvisited s) (None, \<infinity>)")
  note sp = scanMin_start [OF sc]
  have dn: "distances s n = Some (dist_of s n)" if "n \<in> set (unvisited s)" for n
    using that sub dd by (intro dist_of_Some) auto
  show ?case
  proof (cases res)
    case None
    from sp(2) [OF None] have m: "m = \<infinity>" .
    have loop: "dijkstraLoop N M b s = s"
      using ne sc None by (subst dijkstraLoop.simps) simp
    have far: "dist_of s n = \<infinity>" if "n \<in> set (unvisited s)" for n
      using sp(1) that dn [OF that] m by auto
    from exhausted_unreachable [OF inv iso far b] far [OF b] dd show ?thesis
      unfolding loop dpost_def by simp
  next
    case (Some c)
    from sp(3) [OF Some] have c: "c \<in> set (unvisited s)" and dc: "distances s c = Some m"
      and fin: "m \<noteq> \<infinity>" by simp_all
    from dc have mc: "dist_of s c = m" by (simp add: dist_of_def)
    have least: "dist_of s c \<le> dist_of s n" if "n \<in> set (unvisited s)" for n
      using sp(1) that dn [OF that] mc by auto
    from fin obtain k where k: "m = enat k" by (cases m) auto
    let ?s1 = "s\<lparr>unvisited := Set_delete c (unvisited s)\<rparr>"
    show ?thesis
    proof (cases "c = b")
      case True
      have loop: "dijkstraLoop N M b s = ?s1"
        using ne sc Some k True by (subst dijkstraLoop.simps) (simp add: Let_def)
      have d1: "dist_of ?s1 b = m" using mc True by (simp add: dist_of_def)
      from dinvD(5) [OF inv, of b k] mc True k
      obtain q where q: "apath N M a q b" "atime q = k" by auto
      have mn: "k \<le> atime p" if "apath N M a p b" for p
        using selected_exact [OF inv iso c least, of p] that True mc k by simp
      have "set (unvisited ?s1) = set (unvisited s) - {c}" by (auto simp: Set_delete_def)
      with chain_selected [OF inv c] True
      have chn: "chainEnds (previous ?s1) (set ids - set (unvisited ?s1)) b" by simp
      from q mn chn d1 k dd show ?thesis
        unfolding loop dpost_def by auto
    next
      case False
      let ?s2 = "foldl (relaxEdge M c) ?s1 (N c)"
      have loop: "dijkstraLoop N M b s = dijkstraLoop N M b ?s2"
        using ne sc Some k False by (subst dijkstraLoop.simps) (simp add: Let_def)
      have u2: "unvisited ?s2 = removeAll c (unvisited s)"
        by (simp add: unvisited_relaxEdges Set_delete_def)
      from c have lt: "length (unvisited ?s2) < length (unvisited s)"
        unfolding u2 by (rule length_removeAll_less)
      from mc fin have fin': "dist_of s c \<noteq> \<infinity>" by simp
      from mc k have kc: "dist_of s c = enat k" by simp
      have ex: "dist_of s c + enat (ei_time_min e) \<le> enat (2 ^ 53)"
        if "e \<in> set (N c)" "ei_mode e \<in> set M" "ei_to e \<in> set (unvisited s)" for e
        by (rule step_exact(2) [OF bd nb total c kc that(1,3)])
      have inv2: "dinv N M ids a ?s2" by (rule dinv_step [OF inv iso c fin' least ex])
      have bd2: "dbound E ?s2"
        by (rule dbound_step [OF bd nb total c kc step_relaxed [OF inv c ex]])
      from b False have b2: "b \<in> set (unvisited ?s2)" unfolding u2 by simp
      from less.hyps [OF lt inv2 bd2 b2] show ?thesis unfolding loop .
    qed
  qed
qed

lemma fold_initNode:
  "distances (fold initNode ids s) n = (if n \<in> set ids then Some \<infinity> else distances s n)"
  "costs (fold initNode ids s) n = (if n \<in> set ids then Some 0 else costs s n)"
  "previous (fold initNode ids s) n = (if n \<in> set ids then Some None else previous s n)"
  "set (unvisited (fold initNode ids s)) = set (unvisited s) \<union> set ids"
  by (induction ids arbitrary: s) (auto simp: initNode_def Set_add_def)

lemma initState_dinv:
  assumes "a \<in> set ids"
  shows "dinv N M ids a (initState ids a)"
proof (rule dinvI)
  let ?s = "initState ids a"
  have u: "set (unvisited ?s) = set ids"
    by (simp add: initState_def Let_def fold_initNode)
  have d: "dist_of ?s n = (if n = a then 0 else \<infinity>)" for n
    by (simp add: initState_def Let_def fold_initNode dist_of_def)
  have p: "truthyPrevious (previous ?s) n = None" for n
    by (simp add: initState_def Let_def fold_initNode truthyPrevious_def)
  show "set (unvisited ?s) \<subseteq> set ids" using u by simp
  show "dom (distances ?s) = set ids"
    using assms by (auto simp: initState_def Let_def fold_initNode dom_def)
  show "dom (costs ?s) = set ids"
    by (auto simp: initState_def Let_def fold_initNode dom_def)
  show "dist_of ?s a = 0" by (simp add: d)
  show "\<exists>p. apath N M a p n \<and> atime p = k" if "dist_of ?s n = enat k" for n k
  proof -
    from that have "n = a \<and> k = 0" by (auto simp: d zero_enat_def split: if_splits)
    then have "apath N M a [] n \<and> atime [] = k" by simp
    then show ?thesis by blast
  qed
  show "dist_of ?s n \<noteq> \<infinity> \<and> (\<forall>p. apath N M a p n \<longrightarrow> dist_of ?s n \<le> enat (atime p))"
    if "n \<in> set ids" "n \<notin> set (unvisited ?s)" for n
    using that u by simp
  show "dist_of ?s (ei_to e) \<le> dist_of ?s x + enat (ei_time_min e)"
    if "x \<in> set ids" "x \<notin> set (unvisited ?s)" for x and e :: EdgeInfo
    using that u by simp
  show "chainEnds (previous ?s) (set ids - set (unvisited ?s)) n"
    if "n \<in> set ids" "n \<notin> set (unvisited ?s)" for n
    using that u by simp
  show "p' \<in> set ids \<and> p' \<notin> set (unvisited ?s)"
    if "truthyPrevious (previous ?s) n = Some p'" for n p'
    using that p by simp
qed

lemma initState_dbound: "dbound E (initState ids a)"
proof -
  have "dist_of (initState ids a) n = (if n = a then 0 else \<infinity>)" for n
    by (simp add: initState_def Let_def fold_initNode dist_of_def)
  then show ?thesis by (auto simp: dbound_def zero_enat_def split: if_splits)
qed

lemma reconstruct_returns:
  "chainEnds prev V n \<Longrightarrow> \<exists>r. reconstruct prev em (Some n) pth es = Some r"
proof (induction arbitrary: pth es rule: chainEnds.induct)
  case (stop n)
  then show ?case
    by (subst reconstruct.simps) (simp add: reconstruct.simps [of prev em None])
next
  case (step n p)
  from step.IH show ?case
    by (subst reconstruct.simps) (simp add: step.hyps(2))
qed

lemma hasNode_keys: "hasNode g n \<longleftrightarrow> n \<in> set (Map_keys (nodes g))"
  by (simp add: hasNode_def Map_has_def Map_keys_def map_of_eq_None_iff)

lemma Map_has_keys: "Map_has kvs n \<longleftrightarrow> n \<in> set (Map_keys kvs)"
  by (simp add: Map_has_def Map_keys_def map_of_eq_None_iff)

lemma pathTime_simps [simp]:
  "pathTime [] = 0"
  by (simp add: pathTime_def)

text \<open>
  C1. On every graph that \<^verbatim>\<open>loadData\<close> has built and whose edges take no more than
  \<open>2 ^ 53\<close> minutes in total (so that every sum of times along a path is a double), for
  nodes \<open>a\<close> and \<open>b\<close> such that \<open>b\<close> can be reached from \<open>a\<close> along edges of the allowed
  modes, \<^verbatim>\<open>localShortestPath(a, b, allowedModes)\<close> returns, with \<open>found = true\<close>, and
  its \<open>totalTime\<close> is the least time of a path from \<open>a\<close> to \<open>b\<close> over such edges: it is
  the time of one of these paths and no such path takes less.
\<close>

theorem localShortestPath_minimal:
  assumes loaded: "loadData nodesData edgesData routesData g0 = Some g"
    and bound: "sum_list (map e_time_min (edges g)) \<le> 2 ^ 53"
    and a: "hasNode g a" and b: "hasNode g b"
    and reach: "pathFrom (edges g) M a hops b"
  shows "\<exists>r. localShortestPath g a b M = Some r \<and> found r \<and>
           (\<exists>p. pathFrom (edges g) M a p b \<and> totalTime r = enat (pathTime p)) \<and>
           (\<forall>p. pathFrom (edges g) M a p b \<longrightarrow> totalTime r \<le> enat (pathTime p))"
proof (cases "a = b")
  case True
  have "pathFrom (edges g) M a [] b" using True by simp
  with a b True show ?thesis
    by (auto simp: localShortestPath_def hasNode_def zero_enat_def intro!: exI [of _ "[]"])
next
  case False
  let ?N = "getNeighbors g" and ?ids = "Map_keys (nodes g)"
  from loadData_loaded [OF loaded] obtain g1 where g1: "buildAdjacencyList g1 = Some g" by blast
  note nb = buildAdjacencyList_neighbors(4) [OF g1]
  have iso: "?N y = []" if "y \<notin> set ?ids" for y
    using buildAdjacencyList_neighbors(5) [OF g1 that] .
  from a b have ai: "a \<in> set ?ids" and bi: "b \<in> set ?ids" by (simp_all add: hasNode_keys)
  let ?start = "initState ?ids a"
  let ?final = "dijkstraLoop ?N M b ?start"
  have inv0: "dinv ?N M ?ids a ?start" by (rule initState_dinv [OF ai])
  have "set (unvisited ?start) = set ?ids" by (simp add: initState_def Let_def fold_initNode)
  with bi have b0: "b \<in> set (unvisited ?start)" by simp
  have bd0: "dbound (edges g) ?start" by (rule initState_dbound)
  have post: "dpost ?N M ?ids a b ?final"
    by (rule dijkstraLoop_dpost [OF iso nb bound inv0 bd0 b0])
  from pathFrom_apath [of ?N "edges g" M a hops b, OF nb reach]
  obtain q where q: "apath ?N M a q b" by blast
  from post have dd: "dom (distances ?final) = set ?ids"
    and far: "dist_of ?final b = \<infinity> \<Longrightarrow> \<not> apath ?N M a q b"
    and near: "\<And>k. dist_of ?final b = enat k \<Longrightarrow>
          (\<exists>p. apath ?N M a p b \<and> atime p = k) \<and> (\<forall>p. apath ?N M a p b \<longrightarrow> k \<le> atime p) \<and>
          chainEnds (previous ?final) (set ?ids - set (unvisited ?final)) b"
    unfolding dpost_def by blast+
  from far q obtain k where k: "dist_of ?final b = enat k" by (cases "dist_of ?final b") auto
  from dd bi have db: "distances ?final b = Some (enat k)"
    using dist_of_Some [of b ?final] k by auto
  from near [OF k] obtain p0 where p0: "apath ?N M a p0 b" "atime p0 = k"
    and least: "\<And>p. apath ?N M a p b \<Longrightarrow> k \<le> atime p"
    and chn: "chainEnds (previous ?final) (set ?ids - set (unvisited ?final)) b" by blast
  from reconstruct_returns [OF chn, of "edgeMap ?final" "[]" "[]"]
  obtain pth es where rc: "reconstruct (previous ?final) (edgeMap ?final) (Some b) [] [] = Some (pth, es)"
    by auto
  let ?r = "\<lparr>found = True, path = pth, totalTime = enat k,
             totalCost = (case costs ?final b of Some c \<Rightarrow> c | None \<Rightarrow> 0), path_edges = es\<rparr>"
  have res: "localShortestPath g a b M = Some ?r"
    using a b False db rc by (simp add: localShortestPath_def hasNode_def Let_def)
  from apath_pathFrom [of ?N "edges g" M a p0 b, OF nb p0(1)] p0(2)
  obtain h0 where h0: "pathFrom (edges g) M a h0 b" "pathTime h0 = k" by auto
  have mn: "k \<le> pathTime p" if "pathFrom (edges g) M a p b" for p
  proof -
    from pathFrom_apath [of ?N "edges g" M a p b, OF nb that]
    obtain p' where "apath ?N M a p' b" "atime p' = pathTime p" by blast
    with least [of p'] show ?thesis by simp
  qed
  from res h0 mn show ?thesis by auto
qed

lemma detourGraph_loaded:
  "loadData [nodeA, nodeB, nodeC] [edgeAC, edgeAB, edgeBC] [] newGraph = Some detourGraph"
  by (simp add: detourGraph_def loadData_def newGraph_def buildAdjacencyList_def initAdjacency_def
      Map_keys_def nodeA_def nodeB_def nodeC_def addEdge_def adjPush_def edgeAC_def edgeAB_def
      edgeBC_def fun_eq_iff)

text \<open>
  The theorem on the graph with the detour: the way by B (4 minutes) beats the direct
  edge (5 minutes).
\<close>

theorem localShortestPath_minimal_witness:
  "loadData [nodeA, nodeB, nodeC] [edgeAC, edgeAB, edgeBC] [] newGraph = Some detourGraph
   \<and> sum_list (map e_time_min (edges detourGraph)) \<le> 2 ^ 53
   \<and> hasNode detourGraph ''A'' \<and> hasNode detourGraph ''C''
   \<and> pathFrom (edges detourGraph) defaultModes ''A'' [(edgeAB, ''B''), (edgeBC, ''C'')] ''C''
   \<and> pathTime [(edgeAB, ''B''), (edgeBC, ''C'')] = 4
   \<and> (\<exists>r. localShortestPath detourGraph ''A'' ''C'' defaultModes = Some r \<and> found r \<and>
            totalTime r = 4)"
proof -
  have n: "hasNode detourGraph ''A''" "hasNode detourGraph ''C''"
    by (simp_all add: hasNode_def Map_has_def detourGraph_def)
  have p: "pathFrom (edges detourGraph) defaultModes ''A'' [(edgeAB, ''B''), (edgeBC, ''C'')] ''C''"
    by (simp add: detourGraph_def defaultModes_def traverses_def edgeAB_def edgeBC_def)
  have t: "pathTime [(edgeAB, ''B''), (edgeBC, ''C'')] = 4"
    by (simp add: pathTime_def edgeAB_def edgeBC_def)
  have direct: "pathFrom (edges detourGraph) defaultModes ''A'' [(edgeAC, ''C'')] ''C''"
    by (simp add: detourGraph_def defaultModes_def traverses_def edgeAC_def)
  have bd: "sum_list (map e_time_min (edges detourGraph)) \<le> 2 ^ 53"
    by (simp add: detourGraph_def edgeAC_def edgeAB_def edgeBC_def)
  from localShortestPath_minimal [OF detourGraph_loaded bd n p]
  obtain r where r: "localShortestPath detourGraph ''A'' ''C'' defaultModes = Some r" "found r"
    and le: "\<And>q. pathFrom (edges detourGraph) defaultModes ''A'' q ''C'' \<Longrightarrow> totalTime r \<le> enat (pathTime q)"
    by blast
  have v: "localShortestPath detourGraph ''A'' ''C'' defaultModes
      = Some \<lparr>found = True, path = [''A'', ''B'', ''C''], totalTime = 4, totalCost = 20,
              path_edges = [edgeInfo edgeAB, edgeInfo edgeBC]\<rparr>"
    by code_simp
  from r(1) v have "r = \<lparr>found = True, path = [''A'', ''B'', ''C''], totalTime = 4, totalCost = 20,
              path_edges = [edgeInfo edgeAB, edgeInfo edgeBC]\<rparr>" by simp
  then have "totalTime r = 4" by simp
  with detourGraph_loaded bd n p t r show ?thesis by simp
qed

subsection \<open>Destinations out of reach\<close>

text \<open>
  When no sequence of edges of the allowed modes leads from the origin to the destination,
  the search returns the \<^verbatim>\<open>found: false\<close> result: either a node is unknown, or the loop ends
  with an infinite distance at the destination.
\<close>

lemma rinv_relaxEdge:
  assumes inv: "rinv N M ids a s" and e: "e \<in> set (N c)" and q: "apath N M a q c"
  shows "rinv N M ids a (relaxEdge M c s e)"
proof (cases "relaxEdge M c s e = s")
  case True
  with inv show ?thesis by simp
next
  case False
  then obtain newDist ccur where m: "ei_mode e \<in> set M"
    and k: "ei_to e \<in> dom (distances s)"
    and upd: "relaxEdge M c s e =
        s\<lparr>distances := (distances s)(ei_to e \<mapsto> newDist),
          costs := (costs s)(ei_to e \<mapsto> ccur + ei_cost e),
          previous := (previous s)(ei_to e \<mapsto> Some c),
          edgeMap := (edgeMap s)(ei_to e \<mapsto> e)\<rparr>"
    by (auto simp: relaxEdge_def Let_def split: if_splits option.splits)
  let ?s' = "relaxEdge M c s e"
  from inv have dd: "dom (distances s) = set ids" and sub: "set (unvisited s) \<subseteq> set ids"
    and reach: "\<And>n. dist_of s n \<noteq> \<infinity> \<Longrightarrow> \<exists>p. apath N M a p n"
    unfolding rinv_def by blast+
  have d': "dom (distances ?s') = set ids" unfolding upd using dd k by auto
  have u': "set (unvisited ?s') \<subseteq> set ids" unfolding upd using sub by simp
  have r': "\<exists>p. apath N M a p n" if "dist_of ?s' n \<noteq> \<infinity>" for n
  proof (cases "n = ei_to e")
    case True
    from apath_snoc [OF q e m] True show ?thesis by blast
  next
    case False
    with that have "dist_of s n \<noteq> \<infinity>" unfolding upd by (simp add: dist_of_def)
    then show ?thesis by (rule reach)
  qed
  from d' u' r' show ?thesis unfolding rinv_def by blast
qed

lemma rinv_fold:
  "rinv N M ids a s \<Longrightarrow> set es \<subseteq> set (N c) \<Longrightarrow> apath N M a q c \<Longrightarrow>
   rinv N M ids a (foldl (relaxEdge M c) s es)"
proof (induction es arbitrary: s)
  case Nil
  then show ?case by simp
next
  case (Cons e es)
  from Cons.prems(2) have e: "e \<in> set (N c)" and es: "set es \<subseteq> set (N c)" by simp_all
  have "rinv N M ids a (relaxEdge M c s e)" by (rule rinv_relaxEdge [OF Cons.prems(1) e Cons.prems(3)])
  from Cons.IH [OF this es Cons.prems(3)] show ?case by simp
qed

lemma dijkstraLoop_rinv:
  "rinv N M ids a s \<Longrightarrow> rinv N M ids a (dijkstraLoop N M b s)"
proof (induction "length (unvisited s)" arbitrary: s rule: less_induct)
  case less
  note inv = less.prems
  show ?case
  proof (cases "unvisited s = []")
    case True
    then have "dijkstraLoop N M b s = s" by (subst dijkstraLoop.simps) simp
    with inv show ?thesis by simp
  next
    case ne: False
    obtain res m where sc: "scanMin (distances s) (unvisited s) (None, \<infinity>) = (res, m)"
      by (cases "scanMin (distances s) (unvisited s) (None, \<infinity>)")
    note sp = scanMin_start [OF sc]
    show ?thesis
    proof (cases res)
      case None
      have "dijkstraLoop N M b s = s"
        using ne sc None by (subst dijkstraLoop.simps) simp
      with inv show ?thesis by simp
    next
      case (Some c)
      from sp(3) [OF Some] have c: "c \<in> set (unvisited s)" and dc: "distances s c = Some m"
        and fin: "m \<noteq> \<infinity>" by simp_all
      from fin obtain k where k: "m = enat k" by (cases m) auto
      from dc fin have "dist_of s c \<noteq> \<infinity>" by (simp add: dist_of_def)
      with inv obtain q where q: "apath N M a q c" unfolding rinv_def by blast
      let ?s1 = "s\<lparr>unvisited := Set_delete c (unvisited s)\<rparr>"
      have d1: "dist_of ?s1 = dist_of s" by (rule ext) (simp add: dist_of_def)
      have inv1: "rinv N M ids a ?s1"
        using inv unfolding rinv_def d1 by (auto simp: Set_delete_def)
      show ?thesis
      proof (cases "c = b")
        case True
        have "dijkstraLoop N M b s = ?s1"
          using ne sc Some k True by (subst dijkstraLoop.simps) (simp add: Let_def)
        with inv1 show ?thesis by simp
      next
        case False
        let ?s2 = "foldl (relaxEdge M c) ?s1 (N c)"
        have loop: "dijkstraLoop N M b s = dijkstraLoop N M b ?s2"
          using ne sc Some k False by (subst dijkstraLoop.simps) (simp add: Let_def)
        have u2: "unvisited ?s2 = removeAll c (unvisited s)"
          by (simp add: unvisited_relaxEdges Set_delete_def)
        from c have lt: "length (unvisited ?s2) < length (unvisited s)"
          unfolding u2 by (rule length_removeAll_less)
        have inv2: "rinv N M ids a ?s2" by (rule rinv_fold [OF inv1 subset_refl q])
        from less.hyps [OF lt inv2] show ?thesis unfolding loop .
      qed
    qed
  qed
qed

lemma initState_rinv:
  assumes "a \<in> set ids"
  shows "rinv N M ids a (initState ids a)"
proof -
  let ?s = "initState ids a"
  have d: "dist_of ?s n = (if n = a then 0 else \<infinity>)" for n
    by (simp add: initState_def Let_def fold_initNode dist_of_def)
  have "\<exists>p. apath N M a p n" if "dist_of ?s n \<noteq> \<infinity>" for n
  proof -
    from that have "n = a" by (simp add: d split: if_splits)
    then have "apath N M a [] n" by simp
    then show ?thesis by blast
  qed
  moreover have "dom (distances ?s) = set ids"
    using assms by (auto simp: initState_def Let_def fold_initNode dom_def)
  moreover have "set (unvisited ?s) \<subseteq> set ids"
    by (simp add: initState_def Let_def fold_initNode)
  ultimately show ?thesis unfolding rinv_def by blast
qed

lemma localShortestPath_unreachable:
  assumes loaded: "loadData nodesData edgesData routesData g0 = Some g"
    and far: "\<And>hops. \<not> pathFrom (edges g) M a hops b"
  shows "localShortestPath g a b M = Some notFound"
proof (cases "hasNode g a \<and> hasNode g b")
  case False
  then show ?thesis by (auto simp: localShortestPath_def hasNode_def)
next
  case True
  then have a: "hasNode g a" and b: "hasNode g b" by simp_all
  from far [of "[]"] have ne: "a \<noteq> b" by auto
  let ?N = "getNeighbors g" and ?ids = "Map_keys (nodes g)"
  from loadData_loaded [OF loaded] obtain g1 where g1: "buildAdjacencyList g1 = Some g" by blast
  note nb = buildAdjacencyList_neighbors(4) [OF g1]
  from a b have ai: "a \<in> set ?ids" and bi: "b \<in> set ?ids" by (simp_all add: hasNode_keys)
  let ?start = "initState ?ids a"
  let ?final = "dijkstraLoop ?N M b ?start"
  have "rinv ?N M ?ids a ?final"
    by (rule dijkstraLoop_rinv [OF initState_rinv [OF ai]])
  then have dd: "dom (distances ?final) = set ?ids"
    and near: "\<And>k. dist_of ?final b = enat k \<Longrightarrow> \<exists>p. apath ?N M a p b"
    unfolding rinv_def by auto
  have "dist_of ?final b = \<infinity>"
  proof (cases "dist_of ?final b")
    case (enat k)
    from near [OF enat] obtain p where "apath ?N M a p b" by blast
    from apath_pathFrom [of ?N "edges g" M a p b, OF nb this] far show ?thesis by blast
  qed simp
  with dd bi have "distances ?final b = Some \<infinity>"
    using dist_of_Some [of b ?final] by auto
  with a b ne show ?thesis
    by (simp add: localShortestPath_def hasNode_def Let_def)
qed

section \<open>Properties of the distance matrix client\<close>


lemma isCacheValid_ms:
  "isCacheValid now e \<longleftrightarrow> now - ce_timestamp e < 7 * 24 * 60 * 60 * 1000"
proof -
  have "(real_of_int (now - ce_timestamp e) / (1000 * 60 * 60 * 24) < 7)
        = (real_of_int (now - ce_timestamp e) < real_of_int 604800000)"
    by (simp add: field_simps)
  also have "\<dots> = (now - ce_timestamp e < 604800000)"
    by (rule of_int_less_iff)
  finally show ?thesis
    by (simp add: isCacheValid_def CACHE_TTL_DAYS_def Let_def)
qed

lemma wellFormed_failure: "wellFormed (failure msg)"
  by (simp add: wellFormed_def failure_def)

lemma storeSegment_props:
  "wellFormed (fst (storeSegment k n c el))"
  "usageStats (snd (storeSegment k n c el)) = usageStats c"
  by (simp_all add: storeSegment_def Let_def wellFormed_def)

lemma readResponse_wellFormed:
  assumes "readResponse k n c body = Inr (r, c')"
  shows "wellFormed r \<and> usageStats c' = usageStats c"
proof (cases body)
  case None
  with assms show ?thesis by (simp add: readResponse_def)
next
  case (Some data)
  show ?thesis
  proof (cases "status data = Some ''OK''")
    case False
    with assms Some show ?thesis by (auto simp: readResponse_def wellFormed_failure)
  next
    case True
    show ?thesis
    proof (cases "firstElement data")
      case (Inl x)
      with assms Some True show ?thesis by (simp add: readResponse_def)
    next
      case (Inr element)
      show ?thesis
      proof (cases element)
        case None
        with assms Some True Inr show ?thesis by (auto simp: readResponse_def wellFormed_failure)
      next
        case (Some el)
        show ?thesis
        proof (cases "el_status el = Some ''OK''")
          case False
          with assms \<open>body = Some data\<close> True Inr Some show ?thesis
            by (auto simp: readResponse_def wellFormed_failure)
        next
          case t: True
          with assms \<open>body = Some data\<close> True Inr Some
          have "storeSegment k n c el = (r, c')" by (simp add: readResponse_def)
          with storeSegment_props [of k n c el] show ?thesis by simp
        qed
      qed
    qed
  qed
qed

lemma tryRequest_Rejected:
  "outcome env req = Rejected msg \<Longrightarrow> tryRequest env k req c = (Inl (AxiosError msg), c)"
  by (simp add: tryRequest_def)

lemma tryRequest_ErrorStatus:
  "outcome env req = ErrorStatus code \<Longrightarrow>
   tryRequest env k req c = (Inl (AxiosError (''Request failed with status code '' @ toString code)), c)"
  by (simp add: tryRequest_def)

lemma tryRequest_Resolved:
  assumes "outcome env req = Resolved body"
  shows "usageStats (snd (tryRequest env k req c)) =
           (usageStats c)\<lparr>monthlyCount := monthlyCount (usageStats c) + 1,
                           dailyCount := dailyCount (usageStats c) + 1\<rparr>"
    and "tryRequest env k req c = (Inr r, c') \<Longrightarrow> wellFormed r"
proof -
  let ?c1 = "c\<lparr>usageStats := (usageStats c)\<lparr>monthlyCount := monthlyCount (usageStats c) + 1,
                           dailyCount := dailyCount (usageStats c) + 1\<rparr>\<rparr>"
  have eq: "tryRequest env k req c =
      (case readResponse k (now_store env) ?c1 body of Inl x \<Rightarrow> (Inl x, ?c1) | Inr (r, c2) \<Rightarrow> (Inr r, c2))"
    using assms by (simp only: tryRequest_def Let_def http_outcome.case)
  show "usageStats (snd (tryRequest env k req c)) =
           (usageStats c)\<lparr>monthlyCount := monthlyCount (usageStats c) + 1,
                           dailyCount := dailyCount (usageStats c) + 1\<rparr>"
  proof (cases "readResponse k (now_store env) ?c1 body")
    case (Inl x)
    with eq show ?thesis by simp
  next
    case (Inr p)
    obtain r2 c2 where p: "p = (r2, c2)" by (cases p)
    from readResponse_wellFormed [of k "now_store env" ?c1 body r2 c2] Inr p
    have "usageStats c2 = usageStats ?c1" by simp
    with eq Inr p show ?thesis by simp
  qed
  show "tryRequest env k req c = (Inr r, c') \<Longrightarrow> wellFormed r"
  proof -
    assume a: "tryRequest env k req c = (Inr r, c')"
    show "wellFormed r"
    proof (cases "readResponse k (now_store env) ?c1 body")
      case (Inl x)
      with eq a show ?thesis by simp
    next
      case (Inr p)
      obtain r2 c2 where p: "p = (r2, c2)" by (cases p)
      with eq a Inr have "r2 = r" by simp
      with readResponse_wellFormed [of k "now_store env" ?c1 body r2 c2] Inr p
      show ?thesis by simp
    qed
  qed
qed

lemma tryRequest_wellFormed:
  "tryRequest env k req c = (Inr r, c') \<Longrightarrow> wellFormed r"
proof (cases "outcome env req")
  case (Rejected msg)
  assume "tryRequest env k req c = (Inr r, c')"
  with tryRequest_Rejected [OF Rejected, of k c] show ?thesis by simp
next
  case (ErrorStatus code)
  assume "tryRequest env k req c = (Inr r, c')"
  with tryRequest_ErrorStatus [OF ErrorStatus, of k c] show ?thesis by simp
next
  case (Resolved body)
  assume "tryRequest env k req c = (Inr r, c')"
  with tryRequest_Resolved(2) [OF Resolved] show ?thesis .
qed

lemma fetchSegment_monthly:
  "MONTHLY_LIMIT \<le> monthlyCount (usageStats c) \<Longrightarrow>
   fetchSegment g env c k orig dest m = (failure ''Monthly API quota exceeded'', c, [])"
  by (simp add: fetchSegment_def)

lemma fetchSegment_daily:
  "\<not> MONTHLY_LIMIT \<le> monthlyCount (usageStats c) \<Longrightarrow> DAILY_LIMIT \<le> dailyCount (usageStats c) \<Longrightarrow>
   fetchSegment g env c k orig dest m = (failure ''Daily API quota exceeded'', c, [])"
  by (simp add: fetchSegment_def)

lemma fetchSegment_invalid:
  "\<not> MONTHLY_LIMIT \<le> monthlyCount (usageStats c) \<Longrightarrow> \<not> DAILY_LIMIT \<le> dailyCount (usageStats c) \<Longrightarrow>
   getNode g orig = None \<or> getNode g dest = None \<Longrightarrow>
   fetchSegment g env c k orig dest m = (failure ''Invalid node IDs'', c, [])"
  by (auto simp: fetchSegment_def split: option.splits)

lemma fetchSegment_request:
  assumes "\<not> MONTHLY_LIMIT \<le> monthlyCount (usageStats c)" "\<not> DAILY_LIMIT \<le> dailyCount (usageStats c)"
    "getNode g orig = Some originNode" "getNode g dest = Some destNode"
  shows "fetchSegment g env c k orig dest m =
    (case tryRequest env k (requestOf originNode destNode m (apiKey c))
            (c\<lparr>usageStats := (usageStats c)\<lparr>cacheMisses := Suc (cacheMisses (usageStats c))\<rparr>\<rparr>) of
       (Inr r, c2) \<Rightarrow> (r, c2, [requestOf originNode destNode m (apiKey c)])
     | (Inl error, c2) \<Rightarrow> (failure (''Network error: '' @ exn_message error), c2,
            [requestOf originNode destNode m (apiKey c)]))"
  using assms by (simp add: fetchSegment_def Let_def)

lemma fetchSegment_wellFormed: "wellFormed (fst (fetchSegment g env c k orig dest m))"
proof (cases "MONTHLY_LIMIT \<le> monthlyCount (usageStats c)")
  case True
  then show ?thesis by (simp add: fetchSegment_monthly wellFormed_failure)
next
  case m: False
  show ?thesis
  proof (cases "DAILY_LIMIT \<le> dailyCount (usageStats c)")
    case True
    with m show ?thesis by (simp add: fetchSegment_daily wellFormed_failure)
  next
    case d: False
    show ?thesis
    proof (cases "getNode g orig = None \<or> getNode g dest = None")
      case True
      with m d show ?thesis by (simp add: fetchSegment_invalid wellFormed_failure)
    next
      case False
      then obtain originNode destNode where n: "getNode g orig = Some originNode" "getNode g dest = Some destNode"
        by auto
      let ?t = "tryRequest env k (requestOf originNode destNode m (apiKey c))
            (c\<lparr>usageStats := (usageStats c)\<lparr>cacheMisses := Suc (cacheMisses (usageStats c))\<rparr>\<rparr>)"
      obtain x c2 where t: "?t = (x, c2)" by (cases ?t)
      show ?thesis
      proof (cases x)
        case (Inl e)
        with t fetchSegment_request [OF m d n, of env k m] show ?thesis
          by (simp add: wellFormed_failure)
      next
        case (Inr r)
        with t tryRequest_wellFormed have "wellFormed r" by blast
        with Inr t fetchSegment_request [OF m d n, of env k m] show ?thesis
          by simp
      qed
    qed
  qed
qed

lemma getLocalSegment_returns_result:
  "wellFormed (fst (getLocalSegment g env c orig dest m))"
proof (cases "apiKey c = []")
  case True
  then show ?thesis by (simp add: getLocalSegment_def wellFormed_failure)
next
  case False
  let ?c = "c\<lparr>usageStats := checkAndResetCounters (today env) (usageStats c)\<rparr>"
  show ?thesis
  proof (cases "cacheLookup (now_lookup env) (cache c) (cacheKeyOf orig dest m)")
    case None
    with False have "getLocalSegment g env c orig dest m = fetchSegment g env ?c (cacheKeyOf orig dest m) orig dest m"
      by (simp add: getLocalSegment_def Let_def)
    then show ?thesis by (simp add: fetchSegment_wellFormed)
  next
    case (Some e)
    with False show ?thesis by (simp add: getLocalSegment_def Let_def wellFormed_def)
  qed
qed


lemma getLocalSegment_unconfigured:
  "apiKey c = [] \<Longrightarrow> getLocalSegment g env c orig dest m =
     (failure ''Distance Matrix API key not configured'', c, [])"
  by (simp add: getLocalSegment_def)

lemma getLocalSegment_hit:
  assumes "apiKey c \<noteq> []" and "cacheLookup (now_lookup env) (cache c) (cacheKeyOf orig dest m) = Some e"
  shows "getLocalSegment g env c orig dest m =
    (\<lparr>ok = True, distanceMeters = Some (ce_distanceMeters e),
       durationSeconds = Some (ce_durationSeconds e), errorMessage = None, fromCache = Some True\<rparr>,
     c\<lparr>usageStats := (checkAndResetCounters (today env) (usageStats c))
          \<lparr>cacheHits := Suc (cacheHits (checkAndResetCounters (today env) (usageStats c)))\<rparr>\<rparr>, [])"
  using assms by (simp add: getLocalSegment_def Let_def)

lemma getLocalSegment_miss:
  assumes "apiKey c \<noteq> []" and "cacheLookup (now_lookup env) (cache c) (cacheKeyOf orig dest m) = None"
  shows "getLocalSegment g env c orig dest m =
    fetchSegment g env (c\<lparr>usageStats := checkAndResetCounters (today env) (usageStats c)\<rparr>)
      (cacheKeyOf orig dest m) orig dest m"
  using assms by (simp add: getLocalSegment_def Let_def)

lemma checkAndResetCounters_fields:
  "cacheHits (checkAndResetCounters d u) = cacheHits u"
  "cacheMisses (checkAndResetCounters d u) = cacheMisses u"
  "lastReset (checkAndResetCounters d u) = d"
  "dailyCount (checkAndResetCounters d u) = (if lastReset u = d then dailyCount u else 0)"
  "monthlyCount (checkAndResetCounters d u) = (if take 7 (lastReset u) = take 7 d then monthlyCount u else 0)"
  by (auto simp: checkAndResetCounters_def Let_def)

lemma checkAndResetCounters_same_day:
  "lastReset u = d \<Longrightarrow> checkAndResetCounters d u = u"
  by (simp add: checkAndResetCounters_def)

lemma cacheLookup_Some:
  "cacheLookup now entries k = Some e \<longleftrightarrow>
     entries k = Some e \<and> now - ce_timestamp e < 7 * 24 * 60 * 60 * 1000"
  by (auto simp: cacheLookup_def isCacheValid_ms split: option.splits)

lemma cacheLookup_None:
  "cacheLookup now entries k = None \<longleftrightarrow>
     (\<forall>e. entries k = Some e \<longrightarrow> 7 * 24 * 60 * 60 * 1000 \<le> now - ce_timestamp e)"
  by (auto simp: cacheLookup_def isCacheValid_ms split: option.splits)

lemma fresh_failure: "fresh (failure msg)"
  by (simp add: fresh_def failure_def)

lemma readResponse_fresh:
  assumes "readResponse k n c body = Inr (r, c')"
  shows "fresh r"
proof (cases body)
  case None
  with assms show ?thesis by (simp add: readResponse_def)
next
  case (Some data)
  show ?thesis
  proof (cases "status data = Some ''OK''")
    case False
    with assms Some show ?thesis by (auto simp: readResponse_def fresh_failure)
  next
    case True
    show ?thesis
    proof (cases "firstElement data")
      case (Inl x)
      with assms Some True show ?thesis by (simp add: readResponse_def)
    next
      case (Inr element)
      show ?thesis
      proof (cases element)
        case None
        with assms Some True Inr show ?thesis by (auto simp: readResponse_def fresh_failure)
      next
        case (Some el)
        show ?thesis
        proof (cases "el_status el = Some ''OK''")
          case False
          with assms \<open>body = Some data\<close> True Inr Some show ?thesis
            by (auto simp: readResponse_def fresh_failure)
        next
          case t: True
          with assms \<open>body = Some data\<close> True Inr Some
          have "storeSegment k n c el = (r, c')" by (simp add: readResponse_def)
          then show ?thesis by (auto simp: storeSegment_def Let_def fresh_def)
        qed
      qed
    qed
  qed
qed

lemma tryRequest_fresh:
  assumes "tryRequest env k req c = (Inr r, c')"
  shows "fresh r"
proof (cases "outcome env req")
  case (Rejected msg)
  with assms show ?thesis by (simp add: tryRequest_def)
next
  case (ErrorStatus code)
  with assms show ?thesis by (simp add: tryRequest_def)
next
  case (Resolved body)
  let ?c1 = "c\<lparr>usageStats := (usageStats c)\<lparr>monthlyCount := monthlyCount (usageStats c) + 1,
                           dailyCount := dailyCount (usageStats c) + 1\<rparr>\<rparr>"
  have eq: "tryRequest env k req c =
      (case readResponse k (now_store env) ?c1 body of Inl x \<Rightarrow> (Inl x, ?c1) | Inr (r, c2) \<Rightarrow> (Inr r, c2))"
    using Resolved by (simp only: tryRequest_def Let_def http_outcome.case)
  show ?thesis
  proof (cases "readResponse k (now_store env) ?c1 body")
    case (Inl x)
    with eq assms show ?thesis by simp
  next
    case (Inr p)
    obtain r2 c2 where p: "p = (r2, c2)" by (cases p)
    with eq assms Inr have "r2 = r" by simp
    with readResponse_fresh [of k "now_store env" ?c1 body r2 c2] Inr p
    show ?thesis by simp
  qed
qed

lemma fetchSegment_fresh: "fresh (fst (fetchSegment g env c k orig dest m))"
proof (cases "MONTHLY_LIMIT \<le> monthlyCount (usageStats c)")
  case True
  then show ?thesis by (simp add: fetchSegment_monthly fresh_failure)
next
  case m: False
  show ?thesis
  proof (cases "DAILY_LIMIT \<le> dailyCount (usageStats c)")
    case True
    with m show ?thesis by (simp add: fetchSegment_daily fresh_failure)
  next
    case d: False
    show ?thesis
    proof (cases "getNode g orig = None \<or> getNode g dest = None")
      case True
      with m d show ?thesis by (simp add: fetchSegment_invalid fresh_failure)
    next
      case False
      then obtain originNode destNode where n: "getNode g orig = Some originNode" "getNode g dest = Some destNode"
        by auto
      let ?t = "tryRequest env k (requestOf originNode destNode m (apiKey c))
            (c\<lparr>usageStats := (usageStats c)\<lparr>cacheMisses := Suc (cacheMisses (usageStats c))\<rparr>\<rparr>)"
      obtain x c2 where t: "?t = (x, c2)" by (cases ?t)
      show ?thesis
      proof (cases x)
        case (Inl e)
        with t fetchSegment_request [OF m d n, of env k m] show ?thesis
          by (simp add: fresh_failure)
      next
        case (Inr r)
        with t tryRequest_fresh have "fresh r" by blast
        with Inr t fetchSegment_request [OF m d n, of env k m] show ?thesis
          by simp
      qed
    qed
  qed
qed

text \<open>
  C6 (amended). For every configured call whose cache holds an entry under the key
  (origin, destination, mode): if the entry is younger than 7 days, the call returns the
  entry's distance and duration marked \<open>fromCache = true\<close>, adds one to \<open>cacheHits\<close>,
  sends no request and does not increment \<open>dailyCount\<close> or \<open>monthlyCount\<close>: they keep the
  value the lazy roll-over of the same call gives them (unchanged on the day, respectively
  in the month, of \<open>lastReset\<close>; zero otherwise). If the entry is 7 days old or older, the
  result is not marked as served from the cache.
\<close>

theorem cache_hit_skips_quota:
  assumes "apiKey c \<noteq> []" and "cache c (cacheKeyOf orig dest m) = Some e"
  shows "(now_lookup env - ce_timestamp e < 7 * 24 * 60 * 60 * 1000 \<longrightarrow>
            (case getLocalSegment g env c orig dest m of (r, c', reqs) \<Rightarrow>
               r = \<lparr>ok = True, distanceMeters = Some (ce_distanceMeters e),
                     durationSeconds = Some (ce_durationSeconds e), errorMessage = None,
                     fromCache = Some True\<rparr>
             \<and> cacheHits (usageStats c') = cacheHits (usageStats c) + 1
             \<and> dailyCount (usageStats c') =
                 (if lastReset (usageStats c) = today env then dailyCount (usageStats c) else 0)
             \<and> monthlyCount (usageStats c') =
                 (if take 7 (lastReset (usageStats c)) = take 7 (today env)
                  then monthlyCount (usageStats c) else 0)
             \<and> reqs = []))
       \<and> (7 * 24 * 60 * 60 * 1000 \<le> now_lookup env - ce_timestamp e \<longrightarrow>
            fromCache (fst (getLocalSegment g env c orig dest m)) \<noteq> Some True)"
proof (intro conjI impI)
  assume "now_lookup env - ce_timestamp e < 7 * 24 * 60 * 60 * 1000"
  with assms(2) have "cacheLookup (now_lookup env) (cache c) (cacheKeyOf orig dest m) = Some e"
    by (simp add: cacheLookup_Some)
  from getLocalSegment_hit [OF assms(1) this]
  show "case getLocalSegment g env c orig dest m of (r, c', reqs) \<Rightarrow>
               r = \<lparr>ok = True, distanceMeters = Some (ce_distanceMeters e),
                     durationSeconds = Some (ce_durationSeconds e), errorMessage = None,
                     fromCache = Some True\<rparr>
             \<and> cacheHits (usageStats c') = cacheHits (usageStats c) + 1
             \<and> dailyCount (usageStats c') =
                 (if lastReset (usageStats c) = today env then dailyCount (usageStats c) else 0)
             \<and> monthlyCount (usageStats c') =
                 (if take 7 (lastReset (usageStats c)) = take 7 (today env)
                  then monthlyCount (usageStats c) else 0)
             \<and> reqs = []"
    by (simp add: checkAndResetCounters_fields)
next
  assume "7 * 24 * 60 * 60 * 1000 \<le> now_lookup env - ce_timestamp e"
  with assms(2) have "cacheLookup (now_lookup env) (cache c) (cacheKeyOf orig dest m) = None"
    by (simp add: cacheLookup_None)
  from getLocalSegment_miss [OF assms(1) this] fetchSegment_fresh
  show "fromCache (fst (getLocalSegment g env c orig dest m)) \<noteq> Some True"
    by (simp add: fresh_def)
qed




lemma scenarioGraph_loaded:
  "loadData [nodeA, nodeB, nodeC] [] [routeABC [tripABC ''r1_0800'' ''08:00'']] newGraph = Some scenarioGraph"
  by (simp add: scenarioGraph_def loadData_def newGraph_def buildAdjacencyList_def initAdjacency_def Map_keys_def
      nodeA_def nodeB_def nodeC_def routeABC_def)

lemma scenarioGraph_getNode:
  "getNode scenarioGraph ''A'' = Some nodeA"
  "getNode scenarioGraph ''B'' = Some nodeB"
  "getNode scenarioGraph ''C'' = Some nodeC"
  by (simp_all add: getNode_def Map_get_def scenarioGraph_def)

text \<open>
  The theorem at a fresh entry (age 4 seconds) and at a stale one (age 7 days and one second).
\<close>

theorem cache_hit_skips_quota_witness:
  "fst (getLocalSegment scenarioGraph (envAt ''2026-11-03'' 5000 (Rejected ''timeout''))
          (clientWith 3 5 ''2026-11-03'' [''A|B|driving'' \<mapsto> entryAt 1000]) ''A'' ''B'' driving)
     = \<lparr>ok = True, distanceMeters = Some 1200, durationSeconds = Some 300, errorMessage = None,
         fromCache = Some True\<rparr>
   \<and> fromCache (fst (getLocalSegment scenarioGraph (envAt ''2026-11-03'' 604801000 (Rejected ''timeout''))
          (clientWith 3 5 ''2026-11-03'' [''A|B|driving'' \<mapsto> entryAt 1000]) ''A'' ''B'' driving))
       \<noteq> Some True"
  using cache_hit_skips_quota [where c = "clientWith 3 5 ''2026-11-03'' [''A|B|driving'' \<mapsto> entryAt 1000]"
          and orig = "''A''" and dest = "''B''" and m = driving and e = "entryAt 1000"
          and env = "envAt ''2026-11-03'' 5000 (Rejected ''timeout'')" and g = scenarioGraph]
        cache_hit_skips_quota [where c = "clientWith 3 5 ''2026-11-03'' [''A|B|driving'' \<mapsto> entryAt 1000]"
          and orig = "''A''" and dest = "''B''" and m = driving and e = "entryAt 1000"
          and env = "envAt ''2026-11-03'' 604801000 (Rejected ''timeout'')" and g = scenarioGraph]
  by (simp add: clientWith_def envAt_def entryAt_def cacheKeyOf_def submode_string_def split: prod.splits)

text \<open>
  C6 as stated fails when the date has changed since the last call: the entry is served,
  and \<open>dailyCount\<close> goes from 5 to 0.
\<close>

theorem cache_hit_rollover_counterexample:
  "apiKey (clientWith 3 5 ''2026-11-02'' [''A|B|driving'' \<mapsto> entryAt 1000]) \<noteq> []
   \<and> cache (clientWith 3 5 ''2026-11-02'' [''A|B|driving'' \<mapsto> entryAt 1000]) (cacheKeyOf ''A'' ''B'' driving)
       = Some (entryAt 1000)
   \<and> 5000 - ce_timestamp (entryAt 1000) < 7 * 24 * 60 * 60 * 1000
   \<and> dailyCount (usageStats (clientWith 3 5 ''2026-11-02'' [''A|B|driving'' \<mapsto> entryAt 1000])) = 5
   \<and> dailyCount (usageStats (fst (snd (getLocalSegment scenarioGraph (envAt ''2026-11-03'' 5000 (Rejected ''timeout''))
          (clientWith 3 5 ''2026-11-02'' [''A|B|driving'' \<mapsto> entryAt 1000]) ''A'' ''B'' driving)))) = 0"
  by (simp add: getLocalSegment_def Let_def cacheLookup_def isCacheValid_ms checkAndResetCounters_def
        clientWith_def envAt_def entryAt_def cacheKeyOf_def submode_string_def)

subsection \<open>Quota discipline\<close>

text \<open>
  C4 (amended). Once \<open>dailyCount\<close> has reached the daily limit, a configured call on the
  day of \<open>lastReset\<close> sends no request and leaves \<open>dailyCount\<close> and \<open>lastReset\<close> as they
  are, so that the same holds for the next call of that day. It returns the cached figures
  when the cache holds a fresh entry for the key; otherwise it fails and changes nothing,
  with the monthly message when \<open>monthlyCount\<close> has reached its limit (that check comes
  first) and the daily message when it has not.
\<close>

theorem daily_quota_blocks_requests:
  assumes "apiKey c \<noteq> []" and "lastReset (usageStats c) = today env"
    and "DAILY_LIMIT \<le> dailyCount (usageStats c)"
  shows "case getLocalSegment g env c orig dest m of (r, c', reqs) \<Rightarrow>
      reqs = [] \<and> dailyCount (usageStats c') = dailyCount (usageStats c)
    \<and> lastReset (usageStats c') = lastReset (usageStats c) \<and> apiKey c' = apiKey c
    \<and> (case cacheLookup (now_lookup env) (cache c) (cacheKeyOf orig dest m) of
          Some e \<Rightarrow> r = \<lparr>ok = True, distanceMeters = Some (ce_distanceMeters e),
                        durationSeconds = Some (ce_durationSeconds e), errorMessage = None,
                        fromCache = Some True\<rparr>
        | None \<Rightarrow> c' = c \<and>
            r = failure (if MONTHLY_LIMIT \<le> monthlyCount (usageStats c)
                         then ''Monthly API quota exceeded'' else ''Daily API quota exceeded''))"
proof (cases "cacheLookup (now_lookup env) (cache c) (cacheKeyOf orig dest m)")
  case (Some e)
  from getLocalSegment_hit [OF assms(1) Some] Some assms(2) show ?thesis
    by (simp add: checkAndResetCounters_same_day)
next
  case None
  have same: "c\<lparr>usageStats := checkAndResetCounters (today env) (usageStats c)\<rparr> = c"
    using assms(2) by (simp add: checkAndResetCounters_same_day)
  show ?thesis
  proof (cases "MONTHLY_LIMIT \<le> monthlyCount (usageStats c)")
    case True
    with getLocalSegment_miss [OF assms(1) None, of g] same None show ?thesis
      by (simp add: fetchSegment_monthly)
  next
    case False
    with getLocalSegment_miss [OF assms(1) None, of g] same None assms(3) show ?thesis
      by (simp add: fetchSegment_daily)
  qed
qed

text \<open>
  The theorem at a client with 50 calls today and no cached entry.
\<close>

theorem daily_quota_blocks_requests_witness:
  "getLocalSegment scenarioGraph (envAt ''2026-11-03'' 5000 (Resolved None))
     (clientWith 60 50 ''2026-11-03'' Map.empty) ''A'' ''B'' driving
   = (failure ''Daily API quota exceeded'', clientWith 60 50 ''2026-11-03'' Map.empty, [])"
  using daily_quota_blocks_requests [where c = "clientWith 60 50 ''2026-11-03'' Map.empty"
      and env = "envAt ''2026-11-03'' 5000 (Resolved None)" and g = scenarioGraph
      and orig = "''A''" and dest = "''B''" and m = driving]
  by (simp add: clientWith_def envAt_def cacheLookup_def DAILY_LIMIT_def MONTHLY_LIMIT_def split: prod.splits)

text \<open>
  C4 as stated fails: with \<open>dailyCount\<close> at the limit, a call whose key has a fresh cache
  entry succeeds, and a call made when \<open>monthlyCount\<close> is at its limit too reports the
  monthly quota, not the daily one.
\<close>

theorem daily_limit_counterexample:
  "DAILY_LIMIT \<le> dailyCount (usageStats (clientWith 60 50 ''2026-11-03'' [''A|B|driving'' \<mapsto> entryAt 1000]))
   \<and> lastReset (usageStats (clientWith 60 50 ''2026-11-03'' [''A|B|driving'' \<mapsto> entryAt 1000])) = ''2026-11-03''
   \<and> ok (fst (getLocalSegment scenarioGraph (envAt ''2026-11-03'' 5000 (Resolved None))
          (clientWith 60 50 ''2026-11-03'' [''A|B|driving'' \<mapsto> entryAt 1000]) ''A'' ''B'' driving))
   \<and> DAILY_LIMIT \<le> dailyCount (usageStats (clientWith 700 50 ''2026-11-03'' Map.empty))
   \<and> errorMessage (fst (getLocalSegment scenarioGraph (envAt ''2026-11-03'' 5000 (Resolved None))
          (clientWith 700 50 ''2026-11-03'' Map.empty) ''A'' ''B'' driving))
       = Some ''Monthly API quota exceeded''"
  by (simp add: getLocalSegment_def Let_def cacheLookup_def isCacheValid_ms checkAndResetCounters_def
        fetchSegment_def failure_def DAILY_LIMIT_def MONTHLY_LIMIT_def
        clientWith_def envAt_def entryAt_def cacheKeyOf_def submode_string_def)


subsection \<open>Counting cache misses\<close>

lemma tryRequest_cacheMisses:
  "cacheMisses (usageStats (snd (tryRequest env k req c))) = cacheMisses (usageStats c)"
proof (cases "outcome env req")
  case (Rejected msg)
  then show ?thesis by (simp add: tryRequest_Rejected)
next
  case (ErrorStatus code)
  then show ?thesis by (simp add: tryRequest_ErrorStatus)
next
  case (Resolved body)
  from tryRequest_Resolved(1) [OF this, of k c] show ?thesis by simp
qed

lemma fetchSegment_requested:
  assumes "\<not> MONTHLY_LIMIT \<le> monthlyCount (usageStats c)" "\<not> DAILY_LIMIT \<le> dailyCount (usageStats c)"
    "getNode g orig = Some originNode" "getNode g dest = Some destNode"
  shows "snd (snd (fetchSegment g env c k orig dest m)) = [requestOf originNode destNode m (apiKey c)]"
    and "fst (snd (fetchSegment g env c k orig dest m)) =
          snd (tryRequest env k (requestOf originNode destNode m (apiKey c))
            (c\<lparr>usageStats := (usageStats c)\<lparr>cacheMisses := Suc (cacheMisses (usageStats c))\<rparr>\<rparr>))"
    and "fst (fetchSegment g env c k orig dest m) =
          (case fst (tryRequest env k (requestOf originNode destNode m (apiKey c))
            (c\<lparr>usageStats := (usageStats c)\<lparr>cacheMisses := Suc (cacheMisses (usageStats c))\<rparr>\<rparr>)) of
             Inr r \<Rightarrow> r | Inl error \<Rightarrow> failure (''Network error: '' @ exn_message error))"
proof -
  let ?t = "tryRequest env k (requestOf originNode destNode m (apiKey c))
            (c\<lparr>usageStats := (usageStats c)\<lparr>cacheMisses := Suc (cacheMisses (usageStats c))\<rparr>\<rparr>)"
  obtain x c2 where t: "?t = (x, c2)" by (cases ?t)
  note eq = fetchSegment_request [OF assms, of env k m]
  show "snd (snd (fetchSegment g env c k orig dest m)) = [requestOf originNode destNode m (apiKey c)]"
    using eq t by (cases x) simp_all
  show "fst (snd (fetchSegment g env c k orig dest m)) = snd ?t"
    using eq t by (cases x) simp_all
  show "fst (fetchSegment g env c k orig dest m) =
          (case fst ?t of Inr r \<Rightarrow> r | Inl error \<Rightarrow> failure (''Network error: '' @ exn_message error))"
    using eq t by (cases x) simp_all
qed

text \<open>
  C7 (amended). For a configured call that finds no fresh cache entry, \<open>cacheMisses\<close> grows
  by the number of requests sent: by one when both quota checks pass and both nodes are
  known, and not at all when the call fails on the monthly quota, the daily quota or
  unknown nodes. The increment stands after the quota checks, not before them.
\<close>

theorem cacheMisses_counts_requests:
  assumes "apiKey c \<noteq> []"
    and "cacheLookup (now_lookup env) (cache c) (cacheKeyOf orig dest m) = None"
  shows "case getLocalSegment g env c orig dest m of (r, c', reqs) \<Rightarrow>
      cacheMisses (usageStats c') = cacheMisses (usageStats c) + length reqs
    \<and> (MONTHLY_LIMIT \<le> monthlyCount (checkAndResetCounters (today env) (usageStats c)) \<longrightarrow>
         r = failure ''Monthly API quota exceeded'' \<and> reqs = [])
    \<and> (monthlyCount (checkAndResetCounters (today env) (usageStats c)) < MONTHLY_LIMIT \<and>
       DAILY_LIMIT \<le> dailyCount (checkAndResetCounters (today env) (usageStats c)) \<longrightarrow>
         r = failure ''Daily API quota exceeded'' \<and> reqs = [])
    \<and> (monthlyCount (checkAndResetCounters (today env) (usageStats c)) < MONTHLY_LIMIT \<and>
       dailyCount (checkAndResetCounters (today env) (usageStats c)) < DAILY_LIMIT \<and>
       (getNode g orig = None \<or> getNode g dest = None) \<longrightarrow>
         r = failure ''Invalid node IDs'' \<and> reqs = [])
    \<and> (monthlyCount (checkAndResetCounters (today env) (usageStats c)) < MONTHLY_LIMIT \<and>
       dailyCount (checkAndResetCounters (today env) (usageStats c)) < DAILY_LIMIT \<and>
       getNode g orig \<noteq> None \<and> getNode g dest \<noteq> None \<longrightarrow> length reqs = 1)"
proof -
  let ?u = "checkAndResetCounters (today env) (usageStats c)"
  let ?c = "c\<lparr>usageStats := ?u\<rparr>"
  let ?k = "cacheKeyOf orig dest m"
  note eq = getLocalSegment_miss [OF assms, of g]
  show ?thesis
  proof (cases "MONTHLY_LIMIT \<le> monthlyCount ?u")
    case True
    then have "fetchSegment g env ?c ?k orig dest m = (failure ''Monthly API quota exceeded'', ?c, [])"
      by (simp add: fetchSegment_monthly)
    with eq True show ?thesis by (simp add: checkAndResetCounters_fields(2))
  next
    case m: False
    show ?thesis
    proof (cases "DAILY_LIMIT \<le> dailyCount ?u")
      case True
      with m have "fetchSegment g env ?c ?k orig dest m = (failure ''Daily API quota exceeded'', ?c, [])"
        by (simp add: fetchSegment_daily)
      with eq True m show ?thesis by (simp add: checkAndResetCounters_fields(2))
    next
      case d: False
      show ?thesis
      proof (cases "getNode g orig = None \<or> getNode g dest = None")
        case True
        with m d have "fetchSegment g env ?c ?k orig dest m = (failure ''Invalid node IDs'', ?c, [])"
          by (simp add: fetchSegment_invalid)
        with eq True m d show ?thesis by (auto simp: checkAndResetCounters_fields(2))
      next
        case False
        then obtain originNode destNode where n: "getNode g orig = Some originNode" "getNode g dest = Some destNode"
          by auto
        have m': "\<not> MONTHLY_LIMIT \<le> monthlyCount (usageStats ?c)" using m by simp
        have d': "\<not> DAILY_LIMIT \<le> dailyCount (usageStats ?c)" using d by simp
        note f = fetchSegment_requested [OF m' d' n, of env ?k m]
        obtain r c' reqs where res: "fetchSegment g env ?c ?k orig dest m = (r, c', reqs)"
          by (cases "fetchSegment g env ?c ?k orig dest m")
        from f(1) res have reqs: "length reqs = 1" by simp
        from f(2) res have "cacheMisses (usageStats c') = Suc (cacheMisses ?u)"
          by (simp add: tryRequest_cacheMisses)
        then have "cacheMisses (usageStats c') = cacheMisses (usageStats c) + 1"
          by (simp add: checkAndResetCounters_fields(2))
        with eq res reqs m d n show ?thesis by simp
      qed
    qed
  qed
qed

text \<open>
  The theorem at four calls: one that sends its request, one stopped by each quota, and one
  with an unknown destination.
\<close>

theorem cacheMisses_counts_requests_witness:
  "(case getLocalSegment scenarioGraph (envAt ''2026-11-03'' 5000 (Rejected ''timeout''))
          (clientWith 3 5 ''2026-11-03'' Map.empty) ''A'' ''B'' driving of
      (r, c', reqs) \<Rightarrow> cacheMisses (usageStats c') = 1 \<and> length reqs = 1)
   \<and> (case getLocalSegment scenarioGraph (envAt ''2026-11-03'' 5000 (Rejected ''timeout''))
          (clientWith 700 5 ''2026-11-03'' Map.empty) ''A'' ''B'' driving of
      (r, c', reqs) \<Rightarrow> cacheMisses (usageStats c') = 0 \<and> r = failure ''Monthly API quota exceeded'')
   \<and> (case getLocalSegment scenarioGraph (envAt ''2026-11-03'' 5000 (Rejected ''timeout''))
          (clientWith 3 50 ''2026-11-03'' Map.empty) ''A'' ''B'' driving of
      (r, c', reqs) \<Rightarrow> cacheMisses (usageStats c') = 0 \<and> r = failure ''Daily API quota exceeded'')
   \<and> (case getLocalSegment scenarioGraph (envAt ''2026-11-03'' 5000 (Rejected ''timeout''))
          (clientWith 3 5 ''2026-11-03'' Map.empty) ''A'' ''Z'' driving of
      (r, c', reqs) \<Rightarrow> cacheMisses (usageStats c') = 0 \<and> r = failure ''Invalid node IDs'')"
  using cacheMisses_counts_requests [where c = "clientWith 3 5 ''2026-11-03'' Map.empty"
          and orig = "''A''" and dest = "''B''" and m = driving
          and env = "envAt ''2026-11-03'' 5000 (Rejected ''timeout'')" and g = scenarioGraph]
        cacheMisses_counts_requests [where c = "clientWith 700 5 ''2026-11-03'' Map.empty"
          and orig = "''A''" and dest = "''B''" and m = driving
          and env = "envAt ''2026-11-03'' 5000 (Rejected ''timeout'')" and g = scenarioGraph]
        cacheMisses_counts_requests [where c = "clientWith 3 50 ''2026-11-03'' Map.empty"
          and orig = "''A''" and dest = "''B''" and m = driving
          and env = "envAt ''2026-11-03'' 5000 (Rejected ''timeout'')" and g = scenarioGraph]
        cacheMisses_counts_requests [where c = "clientWith 3 5 ''2026-11-03'' Map.empty"
          and orig = "''A''" and dest = "''Z''" and m = driving
          and env = "envAt ''2026-11-03'' 5000 (Rejected ''timeout'')" and g = scenarioGraph]
  by (simp add: clientWith_def envAt_def cacheLookup_def DAILY_LIMIT_def MONTHLY_LIMIT_def
        checkAndResetCounters_def scenarioGraph_getNode getNode_def Map_get_def scenarioGraph_def
        split: prod.splits)

text \<open>
  C7 as stated fails: a call that fails on the monthly or on the daily quota leaves
  \<open>cacheMisses\<close> as it was.
\<close>

theorem cacheMisses_before_quota_counterexample:
  "apiKey (clientWith 700 5 ''2026-11-03'' Map.empty) \<noteq> []
   \<and> fst (getLocalSegment scenarioGraph (envAt ''2026-11-03'' 5000 (Rejected ''timeout''))
          (clientWith 700 5 ''2026-11-03'' Map.empty) ''A'' ''B'' driving)
       = failure ''Monthly API quota exceeded''
   \<and> cacheMisses (usageStats (fst (snd (getLocalSegment scenarioGraph
          (envAt ''2026-11-03'' 5000 (Rejected ''timeout''))
          (clientWith 700 5 ''2026-11-03'' Map.empty) ''A'' ''B'' driving))))
       = cacheMisses (usageStats (clientWith 700 5 ''2026-11-03'' Map.empty))
   \<and> fst (getLocalSegment scenarioGraph (envAt ''2026-11-03'' 5000 (Rejected ''timeout''))
          (clientWith 3 50 ''2026-11-03'' Map.empty) ''A'' ''B'' driving)
       = failure ''Daily API quota exceeded''
   \<and> cacheMisses (usageStats (fst (snd (getLocalSegment scenarioGraph
          (envAt ''2026-11-03'' 5000 (Rejected ''timeout''))
          (clientWith 3 50 ''2026-11-03'' Map.empty) ''A'' ''B'' driving))))
       = cacheMisses (usageStats (clientWith 3 50 ''2026-11-03'' Map.empty))"
  by (simp add: getLocalSegment_def Let_def cacheLookup_def checkAndResetCounters_def
        fetchSegment_def DAILY_LIMIT_def MONTHLY_LIMIT_def
        clientWith_def envAt_def cacheKeyOf_def submode_string_def)


subsection \<open>Calls that reach the provider\<close>

lemma getLocalSegment_request_path:
  assumes "snd (snd (getLocalSegment g env c orig dest m)) \<noteq> []"
  shows "apiKey c \<noteq> [] \<and> cacheLookup (now_lookup env) (cache c) (cacheKeyOf orig dest m) = None
    \<and> \<not> MONTHLY_LIMIT \<le> monthlyCount (checkAndResetCounters (today env) (usageStats c))
    \<and> \<not> DAILY_LIMIT \<le> dailyCount (checkAndResetCounters (today env) (usageStats c))
    \<and> (\<exists>originNode destNode. getNode g orig = Some originNode \<and> getNode g dest = Some destNode)"
proof -
  let ?u = "checkAndResetCounters (today env) (usageStats c)"
  let ?c = "c\<lparr>usageStats := ?u\<rparr>"
  have k: "apiKey c \<noteq> []"
    using assms by (auto simp: getLocalSegment_unconfigured)
  have l: "cacheLookup (now_lookup env) (cache c) (cacheKeyOf orig dest m) = None"
  proof (cases "cacheLookup (now_lookup env) (cache c) (cacheKeyOf orig dest m)")
    case (Some e)
    from getLocalSegment_hit [OF k Some, of g] assms show ?thesis by simp
  qed simp
  note eq = getLocalSegment_miss [OF k l, of g]
  have mo: "\<not> MONTHLY_LIMIT \<le> monthlyCount ?u"
  proof
    assume "MONTHLY_LIMIT \<le> monthlyCount ?u"
    then have "fetchSegment g env ?c (cacheKeyOf orig dest m) orig dest m
        = (failure ''Monthly API quota exceeded'', ?c, [])"
      by (simp add: fetchSegment_monthly)
    with eq assms show False by simp
  qed
  have da: "\<not> DAILY_LIMIT \<le> dailyCount ?u"
  proof
    assume "DAILY_LIMIT \<le> dailyCount ?u"
    with mo have "fetchSegment g env ?c (cacheKeyOf orig dest m) orig dest m
        = (failure ''Daily API quota exceeded'', ?c, [])"
      by (simp add: fetchSegment_daily)
    with eq assms show False by simp
  qed
  have no: "\<not> (getNode g orig = None \<or> getNode g dest = None)"
  proof
    assume "getNode g orig = None \<or> getNode g dest = None"
    with mo da have "fetchSegment g env ?c (cacheKeyOf orig dest m) orig dest m
        = (failure ''Invalid node IDs'', ?c, [])"
      by (simp add: fetchSegment_invalid)
    with eq assms show False by simp
  qed
  from k l mo da no show ?thesis by auto
qed

lemma readResponse_status:
  "status data = Some s \<Longrightarrow> s \<noteq> ''OK'' \<Longrightarrow>
   readResponse k n c (Some data) = Inr (failure (''API status: '' @ s), c)"
  by (simp add: readResponse_def)

lemma readResponse_missing:
  "status data = Some ''OK'' \<Longrightarrow> firstElement data = Inr None \<Longrightarrow>
   readResponse k n c (Some data) = Inr (failure ''Element status: MISSING'', c)"
  by (simp add: readResponse_def elementStatus_def)

lemma readResponse_element:
  "status data = Some ''OK'' \<Longrightarrow> firstElement data = Inr (Some el) \<Longrightarrow> el_status el = Some s \<Longrightarrow>
   s \<noteq> ''OK'' \<Longrightarrow> s \<noteq> [] \<Longrightarrow>
   readResponse k n c (Some data) = Inr (failure (''Element status: '' @ s), c)"
  by (simp add: readResponse_def elementStatus_def)

lemma tryRequest_result:
  assumes "outcome env req = Resolved body" and "readResponse k (now_store env)
     (c\<lparr>usageStats := (usageStats c)\<lparr>monthlyCount := monthlyCount (usageStats c) + 1,
                           dailyCount := dailyCount (usageStats c) + 1\<rparr>\<rparr>) body = Inr (r, c2)"
  shows "fst (tryRequest env k req c) = Inr r"
proof -
  let ?c1 = "c\<lparr>usageStats := (usageStats c)\<lparr>monthlyCount := monthlyCount (usageStats c) + 1,
                           dailyCount := dailyCount (usageStats c) + 1\<rparr>\<rparr>"
  have "tryRequest env k req c =
      (case readResponse k (now_store env) ?c1 body of Inl x \<Rightarrow> (Inl x, ?c1) | Inr (r, c2) \<Rightarrow> (Inr r, c2))"
    using assms(1) by (simp only: tryRequest_def Let_def http_outcome.case)
  with assms(2) show ?thesis by simp
qed

text \<open>
  A call whose request went out and was answered with a status from 200 to 299
  (\<^verbatim>\<open>axios.get\<close> resolved): the counters are one above the values of the roll-over, whatever
  the body of the answer is, and an unsuccessful status of the body is reported.
\<close>

lemma resolved_call_result:
  assumes "snd (snd (getLocalSegment g env c orig dest m)) = [req]"
    and "outcome env req = Resolved body"
  shows "case getLocalSegment g env c orig dest m of (r, c', reqs) \<Rightarrow>
      monthlyCount (usageStats c') = monthlyCount (checkAndResetCounters (today env) (usageStats c)) + 1
    \<and> dailyCount (usageStats c') = dailyCount (checkAndResetCounters (today env) (usageStats c)) + 1
    \<and> (\<forall>data s. body = Some data \<longrightarrow> status data = Some s \<longrightarrow> s \<noteq> ''OK'' \<longrightarrow>
          r = failure (''API status: '' @ s))
    \<and> (\<forall>data el s. body = Some data \<longrightarrow> status data = Some ''OK'' \<longrightarrow>
          firstElement data = Inr (Some el) \<longrightarrow> el_status el = Some s \<longrightarrow> s \<noteq> ''OK'' \<longrightarrow> s \<noteq> [] \<longrightarrow>
          r = failure (''Element status: '' @ s))
    \<and> (\<forall>data. body = Some data \<longrightarrow> status data = Some ''OK'' \<longrightarrow> firstElement data = Inr None \<longrightarrow>
          r = failure ''Element status: MISSING'')"
proof -
  let ?u = "checkAndResetCounters (today env) (usageStats c)"
  let ?c = "c\<lparr>usageStats := ?u\<rparr>"
  let ?k = "cacheKeyOf orig dest m"
  from assms(1) have "snd (snd (getLocalSegment g env c orig dest m)) \<noteq> []" by simp
  from getLocalSegment_request_path [OF this]
  obtain originNode destNode where k: "apiKey c \<noteq> []"
    and l: "cacheLookup (now_lookup env) (cache c) ?k = None"
    and mo: "\<not> MONTHLY_LIMIT \<le> monthlyCount (usageStats ?c)"
    and da: "\<not> DAILY_LIMIT \<le> dailyCount (usageStats ?c)"
    and n: "getNode g orig = Some originNode" "getNode g dest = Some destNode"
    by auto
  note eq = getLocalSegment_miss [OF k l, of g]
  note f = fetchSegment_requested [OF mo da n, of env ?k m]
  let ?c1 = "?c\<lparr>usageStats := (usageStats ?c)\<lparr>cacheMisses := Suc (cacheMisses (usageStats ?c))\<rparr>\<rparr>"
  from f(1) eq assms(1) have req: "requestOf originNode destNode m (apiKey ?c) = req" by simp
  let ?t = "tryRequest env ?k req ?c1"
  obtain r c' reqs where res: "getLocalSegment g env c orig dest m = (r, c', reqs)"
    by (cases "getLocalSegment g env c orig dest m")
  from eq res have fres: "fetchSegment g env ?c ?k orig dest m = (r, c', reqs)" by simp
  from f(2) req have c': "c' = snd ?t" unfolding fres by simp
  from f(3) req have r: "r = (case fst ?t of Inr r \<Rightarrow> r
      | Inl error \<Rightarrow> failure (''Network error: '' @ exn_message error))" unfolding fres by simp
  from tryRequest_Resolved(1) [OF assms(2), of ?k ?c1] c'
  have counts: "monthlyCount (usageStats c') = monthlyCount ?u + 1" "dailyCount (usageStats c') = dailyCount ?u + 1"
    by simp_all
  let ?c2 = "?c1\<lparr>usageStats := (usageStats ?c1)\<lparr>monthlyCount := monthlyCount (usageStats ?c1) + 1,
                           dailyCount := dailyCount (usageStats ?c1) + 1\<rparr>\<rparr>"
  have st: "r = failure (''API status: '' @ s)" if "body = Some data" "status data = Some s" "s \<noteq> ''OK''" for data s
  proof -
    from that have "readResponse ?k (now_store env) ?c2 body = Inr (failure (''API status: '' @ s), ?c2)"
      by (simp add: readResponse_status)
    from tryRequest_result [OF assms(2) this] r show ?thesis by simp
  qed
  have el: "r = failure (''Element status: '' @ s)"
    if "body = Some data" "status data = Some ''OK''" "firstElement data = Inr (Some el)"
       "el_status el = Some s" "s \<noteq> ''OK''" "s \<noteq> []" for data el s
  proof -
    from that have "readResponse ?k (now_store env) ?c2 body = Inr (failure (''Element status: '' @ s), ?c2)"
      by (simp add: readResponse_element)
    from tryRequest_result [OF assms(2) this] r show ?thesis by simp
  qed
  have mi: "r = failure ''Element status: MISSING''"
    if "body = Some data" "status data = Some ''OK''" "firstElement data = Inr None" for data
  proof -
    from that have "readResponse ?k (now_store env) ?c2 body = Inr (failure ''Element status: MISSING'', ?c2)"
      by (simp add: readResponse_missing)
    from tryRequest_result [OF assms(2) this] r show ?thesis by simp
  qed
  from res counts st el mi show ?thesis by simp
qed

text \<open>
  A call whose request went out and came back as a rejected promise: the statements that
  increment the counters are skipped, and the \<^verbatim>\<open>catch\<close> clause reports the message.
\<close>

lemma rejected_call_result:
  assumes "snd (snd (getLocalSegment g env c orig dest m)) = [req]"
    and rej: "\<And>k c1. tryRequest env k req c1 = (Inl (AxiosError msg), c1)"
  shows "case getLocalSegment g env c orig dest m of (r, c', reqs) \<Rightarrow>
      monthlyCount (usageStats c') = monthlyCount (checkAndResetCounters (today env) (usageStats c))
    \<and> dailyCount (usageStats c') = dailyCount (checkAndResetCounters (today env) (usageStats c))
    \<and> r = failure (''Network error: '' @ msg)"
proof -
  let ?u = "checkAndResetCounters (today env) (usageStats c)"
  let ?c = "c\<lparr>usageStats := ?u\<rparr>"
  let ?k = "cacheKeyOf orig dest m"
  from assms(1) have "snd (snd (getLocalSegment g env c orig dest m)) \<noteq> []" by simp
  from getLocalSegment_request_path [OF this]
  obtain originNode destNode where k: "apiKey c \<noteq> []"
    and l: "cacheLookup (now_lookup env) (cache c) ?k = None"
    and mo: "\<not> MONTHLY_LIMIT \<le> monthlyCount (usageStats ?c)"
    and da: "\<not> DAILY_LIMIT \<le> dailyCount (usageStats ?c)"
    and n: "getNode g orig = Some originNode" "getNode g dest = Some destNode"
    by auto
  note eq = getLocalSegment_miss [OF k l, of g]
  note f = fetchSegment_requested [OF mo da n, of env ?k m]
  let ?c1 = "?c\<lparr>usageStats := (usageStats ?c)\<lparr>cacheMisses := Suc (cacheMisses (usageStats ?c))\<rparr>\<rparr>"
  from f(1) eq assms(1) have req: "requestOf originNode destNode m (apiKey ?c) = req" by simp
  obtain r c' reqs where res: "getLocalSegment g env c orig dest m = (r, c', reqs)"
    by (cases "getLocalSegment g env c orig dest m")
  from eq res have fres: "fetchSegment g env ?c ?k orig dest m = (r, c', reqs)" by simp
  from f(2) req rej [of ?k ?c1] have c': "c' = ?c1" unfolding fres by simp
  from f(3) req rej [of ?k ?c1] have r: "r = failure (''Network error: '' @ msg)"
    unfolding fres by (simp add: exn_message_def)
  from res c' r show ?thesis by simp
qed

text \<open>
  C8 (amended). A call whose request went out has one of three ends. When the provider
  answers with a status from 200 to 299, \<open>monthlyCount\<close> and \<open>dailyCount\<close> are one above
  the values of the roll-over, whatever the body of the answer is; when the top-level
  status of the body is not \<open>OK\<close> the call fails with the message \<open>API status:\<close> and that
  status; when the first element is missing or has another status than \<open>OK\<close>, it fails
  with \<open>Element status:\<close> and that status. When the provider answers with another HTTP
  status, or when no answer comes, both counters keep the values of the roll-over and the
  call fails with the message \<open>Network error:\<close>.
\<close>

theorem provider_call_consumes_quota:
  assumes "snd (snd (getLocalSegment g env c orig dest m)) = [req]"
  shows "case getLocalSegment g env c orig dest m of (r, c', reqs) \<Rightarrow>
     (case outcome env req of
        Resolved body \<Rightarrow>
          monthlyCount (usageStats c') = monthlyCount (checkAndResetCounters (today env) (usageStats c)) + 1
        \<and> dailyCount (usageStats c') = dailyCount (checkAndResetCounters (today env) (usageStats c)) + 1
        \<and> (\<forall>data s. body = Some data \<longrightarrow> status data = Some s \<longrightarrow> s \<noteq> ''OK'' \<longrightarrow>
              r = failure (''API status: '' @ s))
        \<and> (\<forall>data el s. body = Some data \<longrightarrow> status data = Some ''OK'' \<longrightarrow>
              firstElement data = Inr (Some el) \<longrightarrow> el_status el = Some s \<longrightarrow> s \<noteq> ''OK'' \<longrightarrow> s \<noteq> [] \<longrightarrow>
              r = failure (''Element status: '' @ s))
        \<and> (\<forall>data. body = Some data \<longrightarrow> status data = Some ''OK'' \<longrightarrow> firstElement data = Inr None \<longrightarrow>
              r = failure ''Element status: MISSING'')
      | ErrorStatus code \<Rightarrow>
          monthlyCount (usageStats c') = monthlyCount (checkAndResetCounters (today env) (usageStats c))
        \<and> dailyCount (usageStats c') = dailyCount (checkAndResetCounters (today env) (usageStats c))
        \<and> r = failure (''Network error: Request failed with status code '' @ toString code)
      | Rejected msg \<Rightarrow>
          monthlyCount (usageStats c') = monthlyCount (checkAndResetCounters (today env) (usageStats c))
        \<and> dailyCount (usageStats c') = dailyCount (checkAndResetCounters (today env) (usageStats c))
        \<and> r = failure (''Network error: '' @ msg))"
proof (cases "outcome env req")
  case (Resolved body)
  from resolved_call_result [OF assms Resolved] Resolved show ?thesis
    by (simp split: prod.splits)
next
  case (ErrorStatus code)
  have "tryRequest env k req c1 =
      (Inl (AxiosError (''Request failed with status code '' @ toString code)), c1)" for k c1
    by (rule tryRequest_ErrorStatus [OF ErrorStatus])
  from rejected_call_result [OF assms this] ErrorStatus show ?thesis
    by (simp split: prod.splits)
next
  case (Rejected msg)
  have "tryRequest env k req c1 = (Inl (AxiosError msg), c1)" for k c1
    by (rule tryRequest_Rejected [OF Rejected])
  from rejected_call_result [OF assms this] Rejected show ?thesis
    by (simp split: prod.splits)
qed


text \<open>
  The theorem at an answer whose body has the status \<open>REQUEST_DENIED\<close>, and at an answer
  with the HTTP status 503.
\<close>

theorem provider_call_consumes_quota_witness:
  "(case getLocalSegment scenarioGraph (envAt ''2026-11-03'' 5000 (Resolved deniedBody))
          (clientWith 3 5 ''2026-11-03'' Map.empty) ''A'' ''B'' driving of
      (r, c', reqs) \<Rightarrow> r = failure ''API status: REQUEST_DENIED'' \<and> reqs = [requestOf nodeA nodeB driving ''key'']
         \<and> monthlyCount (usageStats c') = 4 \<and> dailyCount (usageStats c') = 6)
   \<and> (case getLocalSegment scenarioGraph (envAt ''2026-11-03'' 5000 (ErrorStatus 503))
          (clientWith 3 5 ''2026-11-03'' Map.empty) ''A'' ''B'' driving of
      (r, c', reqs) \<Rightarrow> r = failure ''Network error: Request failed with status code 503''
         \<and> reqs = [requestOf nodeA nodeB driving ''key'']
         \<and> monthlyCount (usageStats c') = 3 \<and> dailyCount (usageStats c') = 5)"
proof -
  have path: "snd (snd (getLocalSegment scenarioGraph (envAt ''2026-11-03'' 5000 (Resolved deniedBody))
          (clientWith 3 5 ''2026-11-03'' Map.empty) ''A'' ''B'' driving)) = [requestOf nodeA nodeB driving ''key'']"
    by (simp add: getLocalSegment_def Let_def cacheLookup_def checkAndResetCounters_def
        fetchSegment_def DAILY_LIMIT_def MONTHLY_LIMIT_def scenarioGraph_getNode
        clientWith_def envAt_def split: prod.splits sum.splits)
  have out: "outcome (envAt ''2026-11-03'' 5000 (Resolved deniedBody)) (requestOf nodeA nodeB driving ''key'')
      = Resolved deniedBody"
    by (simp add: envAt_def)
  have path2: "snd (snd (getLocalSegment scenarioGraph (envAt ''2026-11-03'' 5000 (ErrorStatus 503))
          (clientWith 3 5 ''2026-11-03'' Map.empty) ''A'' ''B'' driving)) = [requestOf nodeA nodeB driving ''key'']"
    by (simp add: getLocalSegment_def Let_def cacheLookup_def checkAndResetCounters_def
        fetchSegment_def DAILY_LIMIT_def MONTHLY_LIMIT_def scenarioGraph_getNode
        clientWith_def envAt_def split: prod.splits sum.splits)
  have out2: "outcome (envAt ''2026-11-03'' 5000 (ErrorStatus 503)) (requestOf nodeA nodeB driving ''key'')
      = ErrorStatus 503"
    by (simp add: envAt_def)
  have str: "toString 503 = ''503''" by code_simp
  have one: "(case getLocalSegment scenarioGraph (envAt ''2026-11-03'' 5000 (Resolved deniedBody))
          (clientWith 3 5 ''2026-11-03'' Map.empty) ''A'' ''B'' driving of
      (r, c', reqs) \<Rightarrow> r = failure ''API status: REQUEST_DENIED'' \<and> reqs = [requestOf nodeA nodeB driving ''key'']
         \<and> monthlyCount (usageStats c') = 4 \<and> dailyCount (usageStats c') = 6)"
    using provider_call_consumes_quota [OF path] out path
    by (simp add: deniedBody_def checkAndResetCounters_def clientWith_def envAt_def split: prod.splits)
  have two: "(case getLocalSegment scenarioGraph (envAt ''2026-11-03'' 5000 (ErrorStatus 503))
          (clientWith 3 5 ''2026-11-03'' Map.empty) ''A'' ''B'' driving of
      (r, c', reqs) \<Rightarrow> r = failure ''Network error: Request failed with status code 503''
         \<and> reqs = [requestOf nodeA nodeB driving ''key'']
         \<and> monthlyCount (usageStats c') = 3 \<and> dailyCount (usageStats c') = 5)"
    using provider_call_consumes_quota [OF path2] out2 path2
    by (simp add: str checkAndResetCounters_def clientWith_def envAt_def split: prod.splits)
  from one two show ?thesis by (rule conjI)
qed

text \<open>
  C8 as stated fails: a request that the provider answers with the HTTP status 500 has
  reached the provider, and the call leaves \<open>monthlyCount\<close> at 3 and \<open>dailyCount\<close> at 5.
\<close>

theorem provider_error_status_counterexample:
  "(case getLocalSegment scenarioGraph (envAt ''2026-11-03'' 5000 (ErrorStatus 500))
          (clientWith 3 5 ''2026-11-03'' Map.empty) ''A'' ''B'' driving of
      (r, c', reqs) \<Rightarrow> reqs = [requestOf nodeA nodeB driving ''key'']
         \<and> r = failure ''Network error: Request failed with status code 500''
         \<and> monthlyCount (usageStats c') = 3 \<and> dailyCount (usageStats c') = 5)"
  by code_simp

text \<open>
  C10. \<^verbatim>\<open>getLocalSegment\<close> returns a result on every input and for every outcome of
  the request: an exception thrown inside the \<^verbatim>\<open>try\<close> block (a rejected request, a
  member read on an absent part of the answer) is turned into a failure by the \<^verbatim>\<open>catch\<close>
  clause. Every result is either a success with both figures, or has \<open>ok = false\<close> and an
  error message; at most one request goes out.
\<close>

theorem getLocalSegment_total:
  "wellFormed (fst (getLocalSegment g env c orig dest m))
   \<and> length (snd (snd (getLocalSegment g env c orig dest m))) \<le> 1"
proof
  show "wellFormed (fst (getLocalSegment g env c orig dest m))"
    by (rule getLocalSegment_returns_result)
  show "length (snd (snd (getLocalSegment g env c orig dest m))) \<le> 1"
  proof (cases "snd (snd (getLocalSegment g env c orig dest m)) = []")
    case True
    then show ?thesis by simp
  next
    case False
    from getLocalSegment_request_path [OF this]
    obtain originNode destNode where k: "apiKey c \<noteq> []"
      and l: "cacheLookup (now_lookup env) (cache c) (cacheKeyOf orig dest m) = None"
      and mo: "\<not> MONTHLY_LIMIT \<le> monthlyCount (usageStats (c\<lparr>usageStats := checkAndResetCounters (today env) (usageStats c)\<rparr>))"
      and da: "\<not> DAILY_LIMIT \<le> dailyCount (usageStats (c\<lparr>usageStats := checkAndResetCounters (today env) (usageStats c)\<rparr>))"
      and n: "getNode g orig = Some originNode" "getNode g dest = Some destNode"
      by auto
    from fetchSegment_requested(1) [OF mo da n, of env "cacheKeyOf orig dest m" m]
      getLocalSegment_miss [OF k l, of g]
    show ?thesis by simp
  qed
qed

text \<open>
  The theorem at a request that times out and at an answer without a body.
\<close>

theorem getLocalSegment_total_witness:
  "\<not> ok (fst (getLocalSegment scenarioGraph (envAt ''2026-11-03'' 5000 (Rejected ''timeout of 10000ms exceeded''))
          (clientWith 3 5 ''2026-11-03'' Map.empty) ''A'' ''B'' driving))
   \<and> errorMessage (fst (getLocalSegment scenarioGraph (envAt ''2026-11-03'' 5000 (Rejected ''timeout of 10000ms exceeded''))
          (clientWith 3 5 ''2026-11-03'' Map.empty) ''A'' ''B'' driving))
      = Some ''Network error: timeout of 10000ms exceeded''
   \<and> \<not> ok (fst (getLocalSegment scenarioGraph (envAt ''2026-11-03'' 5000 (Resolved None))
          (clientWith 3 5 ''2026-11-03'' Map.empty) ''A'' ''B'' driving))
   \<and> errorMessage (fst (getLocalSegment scenarioGraph (envAt ''2026-11-03'' 5000 (Resolved None))
          (clientWith 3 5 ''2026-11-03'' Map.empty) ''A'' ''B'' driving))
      = Some ''Network error: Cannot read properties of undefined (reading 'status')''"
  using getLocalSegment_total [where g = scenarioGraph
      and env = "envAt ''2026-11-03'' 5000 (Rejected ''timeout of 10000ms exceeded'')"
      and c = "clientWith 3 5 ''2026-11-03'' Map.empty" and orig = "''A''" and dest = "''B''" and m = driving]
    getLocalSegment_total [where g = scenarioGraph
      and env = "envAt ''2026-11-03'' 5000 (Resolved None)"
      and c = "clientWith 3 5 ''2026-11-03'' Map.empty" and orig = "''A''" and dest = "''B''" and m = driving]
  by (simp add: getLocalSegment_def Let_def cacheLookup_def checkAndResetCounters_def
        fetchSegment_def tryRequest_def readResponse_def cannotRead_def exn_message_def failure_def
        DAILY_LIMIT_def MONTHLY_LIMIT_def scenarioGraph_getNode clientWith_def envAt_def)


section \<open>Properties of the planner\<close>
lemma andThen_simps [simp]:
  "andThen (Inl e) f = Inl e"
  "andThen (Inr x) f = f x"
  by (simp_all add: andThen_def)


subsection \<open>The Direct strategy\<close>


lemma addMinutes_decimal:
  "parseTime timeStr = Inr t \<Longrightarrow>
   addMinutes timeStr k = Inr (minutesToTime ((timeToMinutes t + k) mod 1440))"
  by (simp add: addMinutes_def Let_def)

lemma directTrip_spec:
  assumes "decimalTime requestTime" and "decimalTime (departure_time trip)"
  shows "directTrip route from_id to_id requestTime trip =
     Inr (if spec_qualifyingTrip from_id to_id requestTime trip
          then Some (spec_tripCandidate route from_id to_id requestTime trip) else None)"
proof -
  from assms obtain req dep where req: "parseTime requestTime = Inr req"
    and dep: "parseTime (departure_time trip) = Inr dep"
    by (auto simp: decimalTime_def split: sum.splits)
  have mreq: "minutesOf requestTime = timeToMinutes req" using req by (simp add: minutesOf_def)
  have mdep: "minutesOf (departure_time trip) = timeToMinutes dep" using dep by (simp add: minutesOf_def)
  show ?thesis
  proof (cases "indexOf (stops trip) from_id")
    case None
    then show ?thesis by (simp add: directTrip_def spec_qualifyingTrip_def)
  next
    case i: (Some i)
    show ?thesis
    proof (cases "indexOf (stops trip) to_id")
      case None
      with i show ?thesis by (simp add: directTrip_def spec_qualifyingTrip_def)
    next
      case j: (Some j)
      show ?thesis
      proof (cases "i < j")
        case False
        with i j show ?thesis by (simp add: directTrip_def spec_qualifyingTrip_def)
      next
        case lt: True
        show ?thesis
        proof (cases "timeToMinutes dep + i * 5 < timeToMinutes req")
          case True
          with i j lt req dep mreq mdep show ?thesis
            by (simp add: directTrip_def spec_qualifyingTrip_def Let_def)
        next
          case False
          then have q: "spec_qualifyingTrip from_id to_id requestTime trip"
            using i j lt mreq mdep by (simp add: spec_qualifyingTrip_def)
          have e1: "timeToMinutes dep + i * 5 - timeToMinutes req + (j - i) * 5
              = (j - i) * 5 + (timeToMinutes dep + i * 5 - timeToMinutes req)" by simp
          have e2: "timeToMinutes dep + i * 5 + (j - i) * 5 = timeToMinutes dep + (i * 5 + (j - i) * 5)"
            by simp
          have c: "spec_tripCandidate route from_id to_id requestTime trip =
            \<lparr>label = route_name route @ '' Direct'', opt_category = fastest, opt_type = direct,
             transfers = 0,
             totalTimeMin = enat ((j - i) * 5 + (timeToMinutes dep + i * 5 - timeToMinutes req)),
             opt_totalCost = 0, localTimeMin = 0,
             localDistanceMeters = 0, usesDistanceMatrix = False,
             legs = [busLeg route trip from_id to_id
                     (minutesToTime ((timeToMinutes dep + i * 5) mod 1440))
                     (minutesToTime ((timeToMinutes dep + (i * 5 + (j - i) * 5)) mod 1440)) ((j - i) * 5)]\<rparr>"
            unfolding spec_tripCandidate_def Let_def i j mreq mdep option.case e1 e2 ..
          have "directTrip route from_id to_id requestTime trip =
            Inr (Some \<lparr>label = route_name route @ '' Direct'', opt_category = fastest, opt_type = direct,
             transfers = 0,
             totalTimeMin = enat ((j - i) * 5 + (timeToMinutes dep + i * 5 - timeToMinutes req)),
             opt_totalCost = 0, localTimeMin = 0,
             localDistanceMeters = 0, usesDistanceMatrix = False,
             legs = [busLeg route trip from_id to_id
                     (minutesToTime ((timeToMinutes dep + i * 5) mod 1440))
                     (minutesToTime ((timeToMinutes dep + (i * 5 + (j - i) * 5)) mod 1440)) ((j - i) * 5)]\<rparr>)"
            using False i j lt req dep
            by (simp add: directTrip_def Let_def addMinutes_decimal [OF dep])
          with q c show ?thesis by simp
        qed
      qed
    qed
  qed
qed

lemma clockTime_decimal: "clockTime timeStr \<Longrightarrow> decimalTime timeStr"
  by (simp add: clockTime_def decimalTime_def split: sum.splits)

text \<open>
  C3 (amended). \<^verbatim>\<open>directBusRoute\<close> returns one candidate per route, not one per trip:
  when the requested time and the departure times of the route are times of day (hours
  below 24, minutes below 60), its result is the candidate of the first trip of the route,
  in the route's order, that qualifies in the sense of the specification, and
  \<^verbatim>\<open>null\<close> when no trip of the route qualifies. The later qualifying trips of the route
  produce nothing.
\<close>

theorem directBusRoute_first_qualifying:
  assumes "clockTime requestTime"
    and "\<forall>trip \<in> set (trips route). clockTime (departure_time trip)"
  shows "directBusRoute route from_id to_id requestTime =
     Inr (map_option (spec_tripCandidate route from_id to_id requestTime)
            (find (spec_qualifyingTrip from_id to_id requestTime) (trips route)))"
proof -
  note req = clockTime_decimal [OF assms(1)]
  from assms(2) have deps: "\<forall>trip \<in> set (trips route). decimalTime (departure_time trip)"
    by (auto intro: clockTime_decimal)
  have "\<forall>trip \<in> set ts. decimalTime (departure_time trip) \<Longrightarrow>
        directTrips route from_id to_id requestTime ts =
        Inr (map_option (spec_tripCandidate route from_id to_id requestTime)
               (find (spec_qualifyingTrip from_id to_id requestTime) ts))" for ts
  proof (induction ts)
    case Nil
    show ?case by simp
  next
    case (Cons trip ts)
    then have d: "decimalTime (departure_time trip)" by simp
    from Cons have ih: "directTrips route from_id to_id requestTime ts =
        Inr (map_option (spec_tripCandidate route from_id to_id requestTime)
               (find (spec_qualifyingTrip from_id to_id requestTime) ts))" by simp
    show ?case
      by (simp add: directTrip_spec [OF req d] ih)
  qed
  with deps show ?thesis by (simp add: directBusRoute_def)
qed

text \<open>
  The theorem at the route with trips at 08:00 and 09:00 and a request at 07:55.
\<close>

theorem directBusRoute_first_qualifying_witness:
  "clockTime ''07:55'' \<and> map departure_time (trips twoTrips) = [''08:00'', ''09:00'']
   \<and> clockTime ''08:00'' \<and> clockTime ''09:00''
   \<and> directBusRoute twoTrips ''A'' ''C'' ''07:55''
       = Inr (Some (spec_tripCandidate twoTrips ''A'' ''C'' ''07:55'' (tripABC ''r1_0800'' ''08:00'')))"
proof -
  have a: "clockTime ''07:55''" by code_simp
  have b: "\<forall>trip \<in> set (trips twoTrips). clockTime (departure_time trip)" by code_simp
  have c: "find (spec_qualifyingTrip ''A'' ''C'' ''07:55'') (trips twoTrips) = Some (tripABC ''r1_0800'' ''08:00'')"
    by code_simp
  have d: "map departure_time (trips twoTrips) = [''08:00'', ''09:00'']" by code_simp
  have e: "clockTime ''08:00''" "clockTime ''09:00''" by code_simp+
  from directBusRoute_first_qualifying [OF a b, of "''A''" "''C''"] a c d e show ?thesis by simp
qed

text \<open>
  C3 as stated fails: both trips of that route qualify, and the only candidate is the one
  of the 08:00 trip.
\<close>

theorem one_candidate_per_trip_counterexample:
  "spec_qualifyingTrip ''A'' ''C'' ''07:55'' (tripABC ''r1_0800'' ''08:00'')
   \<and> spec_qualifyingTrip ''A'' ''C'' ''07:55'' (tripABC ''r1_0900'' ''09:00'')
   \<and> (case directBusRoute twoTrips ''A'' ''C'' ''07:55'' of
        Inr (Some option) \<Rightarrow> map leg_trip_id (legs option)
      | _ \<Rightarrow> [])
      = [Some ''r1_0800'']"
  by code_simp



subsection \<open>Requests without a journey\<close>

text \<open>
  C9. When either endpoint is not a node of the graph, or origin and destination are the
  same, \<^verbatim>\<open>planRoute\<close> returns a response with an empty list of options. It is a
  value, not an error, and the distance matrix client is not touched.
\<close>

theorem planRoute_no_options:
  assumes "\<not> hasNode g from_id \<or> \<not> hasNode g to_id \<or> from_id = to_id"
  shows "planRoute g envs w from_id to_id requestTime =
     Inr (\<lparr>resp_from = from_id, resp_to = to_id, resp_requestTime = requestTime, options = []\<rparr>, w)"
  using assms by (auto simp: planRoute_def noOptions_def)

text \<open>
  The theorem at the request from A to A and at a request to the unknown node Z.
\<close>

theorem planRoute_no_options_witness:
  "planRoute scenarioGraph noNetwork (startWorld offlineClient) ''A'' ''A'' ''08:00'' =
     Inr (\<lparr>resp_from = ''A'', resp_to = ''A'', resp_requestTime = ''08:00'', options = []\<rparr>,
          startWorld offlineClient)
   \<and> \<not> hasNode scenarioGraph ''Z''
   \<and> planRoute scenarioGraph noNetwork (startWorld offlineClient) ''A'' ''Z'' ''08:00'' =
     Inr (\<lparr>resp_from = ''A'', resp_to = ''Z'', resp_requestTime = ''08:00'', options = []\<rparr>,
          startWorld offlineClient)"
  using planRoute_no_options [where g = scenarioGraph and from_id = "''A''" and to_id = "''A''"
          and envs = noNetwork and w = "startWorld offlineClient" and requestTime = "''08:00''"]
        planRoute_no_options [where g = scenarioGraph and from_id = "''A''" and to_id = "''Z''"
          and envs = noNetwork and w = "startWorld offlineClient" and requestTime = "''08:00''"]
  by (simp add: hasNode_def Map_has_def scenarioGraph_def)

subsection \<open>The scenario of the specification\<close>

lemma scenario_direct:
  "directBusRoute (routeABC [tripABC ''r1_0800'' ''08:00'']) ''A'' ''C'' ''07:55'' = Inr (Some directABC)"
  by code_simp

lemma callSegment_unconfigured:
  "apiKey (client w) = [] \<Longrightarrow>
   callSegment g envs w orig dest m =
     (failure ''Distance Matrix API key not configured'',
      \<lparr>client = client w, calls = Suc (calls w), sent = sent w\<rparr>)"
  by (simp add: callSegment_def getLocalSegment_unconfigured)

lemma scenario_loaded:
  assumes "loadData [nodeA, nodeB, nodeC] edgesData [routeABC [tripABC ''r1_0800'' ''08:00'']] newGraph = Some g"
  shows "nodes g = [(''A'', nodeA), (''B'', nodeB), (''C'', nodeC)]"
    and "routes g = [(''r1'', routeABC [tripABC ''r1_0800'' ''08:00''])]"
    and "edges g = edgesData"
proof -
  let ?g1 = "newGraph\<lparr>nodes := fold (\<lambda>n m. Map_set (node_id n) n m) [nodeA, nodeB, nodeC] (nodes newGraph),
          edges := edgesData,
          routes := fold (\<lambda>r m. Map_set (route_id r) r m) [routeABC [tripABC ''r1_0800'' ''08:00'']] (routes newGraph)\<rparr>"
  from assms have b: "buildAdjacencyList ?g1 = Some g" by (simp only: loadData_def)
  show "nodes g = [(''A'', nodeA), (''B'', nodeB), (''C'', nodeC)]"
    unfolding buildAdjacencyList_neighbors(1) [OF b]
    by (simp add: newGraph_def nodeA_def nodeB_def nodeC_def)
  show "routes g = [(''r1'', routeABC [tripABC ''r1_0800'' ''08:00''])]"
    unfolding buildAdjacencyList_neighbors(3) [OF b]
    by (simp add: newGraph_def routeABC_def)
  show "edges g = edgesData"
    unfolding buildAdjacencyList_neighbors(2) [OF b] by simp
qed

lemma scenario_hybrid:
  assumes far: "localShortestPath g ''B'' ''C'' defaultModes = Some notFound"
    and key: "apiKey (client w) = []"
  shows "busToLocalRoute g envs w (routeABC [tripABC ''r1_0800'' ''08:00'']) ''A'' ''C'' ''07:55''
     = Inr (None, \<lparr>client = client w, calls = Suc (calls w), sent = sent w\<rparr>)"
proof -
  have ix: "[Suc 0 ..< 3] = [1, 2]" by (simp add: upt_rec)
  have d1: "dropOff g envs (routeABC [tripABC ''r1_0800'' ''08:00'']) ''A'' ''C'' ''07:55''
      (tripABC ''r1_0800'' ''08:00'') 0 (Suc 0) (None, \<infinity>, w)
      = Inr (None, \<infinity>, \<lparr>client = client w, calls = Suc (calls w), sent = sent w\<rparr>)"
    using key
    by (simp add: dropOff_def tripABC_def far localSegment_def notFound_def
        callSegment_unconfigured failure_def)
  have d2: "dropOff g envs (routeABC [tripABC ''r1_0800'' ''08:00'']) ''A'' ''C'' ''07:55''
      (tripABC ''r1_0800'' ''08:00'') 0 2 (None, \<infinity>, w1) = Inr (None, \<infinity>, w1)" for w1
    by (simp add: dropOff_def tripABC_def)
  have tr: "trips (routeABC [tripABC ''r1_0800'' ''08:00'']) = [tripABC ''r1_0800'' ''08:00'']"
    by (simp add: routeABC_def)
  have st: "indexOf (stops (tripABC ''r1_0800'' ''08:00'')) ''A'' = Some 0"
    "length (stops (tripABC ''r1_0800'' ''08:00'')) = 3"
    by (simp_all add: tripABC_def)
  show ?thesis
    unfolding busToLocalRoute_def tr
    by (simp add: st ix d1 d2)
qed

lemma scenario_transfers:
  assumes "getAllRoutes g = [routeABC [tripABC ''r1_0800'' ''08:00'']]"
  shows "findTransferRoutes g ''A'' ''C'' ''07:55'' = Inr []"
  using assms by (simp add: findTransferRoutes_def)

lemma scenario_local:
  assumes far: "localShortestPath g ''A'' ''C'' defaultModes = Some notFound"
    and key: "apiKey (client w) = []"
  shows "localOnlyRoute g envs w ''A'' ''C''
     = Inr (None, \<lparr>client = client w, calls = Suc (calls w), sent = sent w\<rparr>)"
  using key
  by (simp add: localOnlyRoute_def far notFound_def callSegment_unconfigured failure_def)

lemma pathFrom_no_edges: "pathFrom [] M a hops b \<Longrightarrow> a = b"
  by (cases hops) auto

lemma scenario_compare:
  "compareRoutes [directABC] = [directABC\<lparr>label := ''Fastest Route''\<rparr>]"
  by code_simp

text \<open>
  C5 (amended). On a graph loaded from the nodes A, B, C and one route whose single trip
  calls at A, B, C and leaves at 08:00, whose edges give no local or walking way from A to C
  nor from B to C, and when the distance matrix client has no API key,
  \<^verbatim>\<open>planRoute(A, C, "07:55")\<close> returns exactly one option: the direct one, leaving at 08:00,
  arriving at 08:10, with a total time of 15 minutes. The client is called twice (for B to
  C and for A to C) and sends nothing.
\<close>

theorem planRoute_scenario:
  assumes loaded: "loadData [nodeA, nodeB, nodeC] edgesData [routeABC [tripABC ''r1_0800'' ''08:00'']] newGraph = Some g"
    and noBC: "\<forall>hops. \<not> pathFrom edgesData defaultModes ''B'' hops ''C''"
    and noAC: "\<forall>hops. \<not> pathFrom edgesData defaultModes ''A'' hops ''C''"
    and key: "apiKey (client w) = []"
  shows "planRoute g envs w ''A'' ''C'' ''07:55'' =
     Inr (\<lparr>resp_from = ''A'', resp_to = ''C'', resp_requestTime = ''07:55'',
            options = [directABC\<lparr>label := ''Fastest Route''\<rparr>]\<rparr>,
          \<lparr>client = client w, calls = Suc (Suc (calls w)), sent = sent w\<rparr>)"
proof -
  note g = scenario_loaded [OF loaded]
  have n: "hasNode g ''A''" "hasNode g ''C''"
    by (simp_all add: hasNode_def Map_has_def g)
  have r: "getAllRoutes g = [routeABC [tripABC ''r1_0800'' ''08:00'']]"
    by (simp add: getAllRoutes_def Map_values_def g)
  have bc: "localShortestPath g ''B'' ''C'' defaultModes = Some notFound"
    by (rule localShortestPath_unreachable [OF loaded]) (simp add: g noBC)
  have ac: "localShortestPath g ''A'' ''C'' defaultModes = Some notFound"
    by (rule localShortestPath_unreachable [OF loaded]) (simp add: g noAC)
  let ?w1 = "\<lparr>client = client w, calls = Suc (calls w), sent = sent w\<rparr>"
  have k1: "apiKey (client ?w1) = []" using key by simp
  show ?thesis
    unfolding planRoute_def
    by (simp add: n r scenario_direct scenario_hybrid [OF bc key] scenario_transfers [OF r]
        scenario_local [OF ac k1] scenario_compare opt_list_def)
qed

text \<open>
  The theorem on the graph without edges at the start of a session, read field by field.
\<close>

theorem planRoute_scenario_witness:
  "loadData [nodeA, nodeB, nodeC] [] [routeABC [tripABC ''r1_0800'' ''08:00'']] newGraph = Some scenarioGraph
   \<and> (\<forall>hops. \<not> pathFrom [] defaultModes ''B'' hops ''C'')
   \<and> (\<forall>hops. \<not> pathFrom [] defaultModes ''A'' hops ''C'')
   \<and> apiKey (client (startWorld offlineClient)) = []
   \<and> (case planRoute scenarioGraph noNetwork (startWorld offlineClient) ''A'' ''C'' ''07:55'' of
        Inr (r, w) \<Rightarrow>
          map (\<lambda>ro. (opt_type ro, totalTimeMin ro, map leg_departure (legs ro), map leg_arrival (legs ro)))
            (options r)
          = [(direct, 15, [Some ''08:00''], [Some ''08:10''])]
      | Inl e \<Rightarrow> False)"
proof -
  have bc: "\<forall>hops. \<not> pathFrom [] defaultModes ''B'' hops ''C''"
    using pathFrom_no_edges [of defaultModes "''B''" _ "''C''"] by auto
  have ac: "\<forall>hops. \<not> pathFrom [] defaultModes ''A'' hops ''C''"
    using pathFrom_no_edges [of defaultModes "''A''" _ "''C''"] by auto
  have k: "apiKey (client (startWorld offlineClient)) = []"
    by (simp add: startWorld_def offlineClient_def)
  from planRoute_scenario [OF scenarioGraph_loaded bc ac k, of noNetwork] scenarioGraph_loaded bc ac k
  show ?thesis by (simp add: directABC_def)
qed

text \<open>
  C5 as stated says nothing of the segment provider. With a configured client whose cache
  holds an estimate for (B, C), the same request on the same graph returns two options:
  the hybrid one (bus to B, local transport to C) beside the direct one.
\<close>

theorem planRoute_scenario_counterexample:
  "(case planRoute scenarioGraph noNetwork (startWorld cachedClient) ''A'' ''C'' ''07:55'' of
      Inr (r, w) \<Rightarrow> map (\<lambda>ro. (getOptionId ro, opt_type ro, totalTimeMin ro)) (options r)
    | Inl e \<Rightarrow> [])
   = [(''A-C-bus'', direct, 15), (''A-B-bus|B-C-local'', direct, 15)]"
  by code_simp

subsection \<open>The size and the entries of the result\<close>

lemma walkGraph_loaded:
  "loadData [nodeA, nodeB, nodeC] [walkEdge] [routeABC [tripABC ''r1_0800'' ''08:00'']] newGraph = Some walkGraph"
  by (simp add: walkGraph_def loadData_def newGraph_def buildAdjacencyList_def initAdjacency_def Map_keys_def
      nodeA_def nodeB_def nodeC_def routeABC_def addEdge_def adjPush_def walkEdge_def fun_upd_twist)

text \<open>
  C2 at a failing input. On the graph with the walking edge, the request from A to C at
  07:55 has two candidates: the bus (15 minutes, no local time) and the walk (3 minutes).
  The walk is the fastest, the bus has the least local time. \<^verbatim>\<open>compareRoutes\<close> puts
  the identity of the fastest option into \<^verbatim>\<open>addedIds\<close> but not that of the least-local
  option, so its last loop appends the bus option a second time: the result has two
  entries of the identity \<open>A-C-bus\<close>.
\<close>

theorem planRoute_repeats_least_local:
  "(case planRoute walkGraph noNetwork (startWorld offlineClient) ''A'' ''C'' ''07:55'' of
      Inr (r, w) \<Rightarrow> map (\<lambda>ro. (getOptionId ro, label ro)) (options r)
    | Inl e \<Rightarrow> [])
   = [(''A-C-walk'', ''Fastest Route''), (''A-C-bus'', ''Least Local Transport''),
      (''A-C-bus'', ''Least Local Transport'')]"
  by code_simp

text \<open>
  The same run, read for its size: both endpoints are nodes, so the guards at the head of
  \<^verbatim>\<open>planRoute\<close> do not apply, and the result has three entries.
\<close>

theorem planRoute_repeats_least_local_witness:
  "hasNode walkGraph ''A'' \<and> hasNode walkGraph ''C''
   \<and> (case planRoute walkGraph noNetwork (startWorld offlineClient) ''A'' ''C'' ''07:55'' of
        Inr (r, w) \<Rightarrow> length (options r) = 3
      | Inl e \<Rightarrow> False)"
proof -
  have n: "hasNode walkGraph ''A'' \<and> hasNode walkGraph ''C''"
    by (simp add: hasNode_def Map_has_def walkGraph_def)
  note e = planRoute_repeats_least_local
  show ?thesis
  proof (cases "planRoute walkGraph noNetwork (startWorld offlineClient) ''A'' ''C'' ''07:55''")
    case (Inl x)
    with e show ?thesis by simp
  next
    case (Inr p)
    obtain r w where p: "p = (r, w)" by (cases p)
    with e Inr have "length (map (\<lambda>ro. (getOptionId ro, label ro)) (options r)) = 3"
      by simp
    then have "length (options r) = 3" by simp
    with n Inr p show ?thesis by simp
  qed
qed

lemma addOthers_length:
  "length result \<le> 3 \<Longrightarrow> length (addOthers unique js result addedIds) \<le> 3"
proof (induction js arbitrary: result addedIds)
  case Nil
  then show ?case by simp
next
  case (Cons j js)
  show ?case
  proof (cases "3 \<le> length result")
    case True
    with Cons.prems show ?thesis by simp
  next
    case False
    then have "length (result @ [j]) \<le> 3" by simp
    from Cons.IH [OF this] Cons.IH [OF Cons.prems] False show ?thesis
      by (simp add: Let_def)
  qed
qed

text \<open>
  The other half of C2 holds: the result never has more than three entries.
\<close>

lemma compareRoutes_at_most_three: "length (compareRoutes opts) \<le> 3"
  by (simp add: compareRoutes_def Let_def addOthers_length)


end
